theory Spec2Isabelle
  imports Main "HOL-Library.AList"
begin

section \<open>Python values: errors and dictionaries\<close>

text \<open>
  The exceptions the three modules can raise. None of them is raised by a statement of the
  repository itself: \<open>KeyError\<close> comes from a dictionary subscript, \<open>TypeError\<close> from
  \<open>random.sample\<close> handed a population that is not a sequence, \<open>ValueError\<close> from
  \<open>random.sample\<close> asked for more elements than the population holds, \<open>IndexError\<close>
  from a list subscript.
\<close>

datatype error = KeyError | TypeError | ValueError | IndexError

text \<open>
  A Python \<open>dict\<close> is an association list in insertion order whose keys are pairwise
  distinct. \<open>d[k]\<close> is \<open>getitem\<close>, \<open>d[k] = v\<close> is \<open>AList.update k v d\<close> (an existing key
  keeps its place, a new key goes to the end), \<open>d.copy()\<close> is \<open>d\<close> itself.
\<close>

type_synonym ('k, 'v) dict = "('k \<times> 'v) list"

definition getitem :: "('k, 'v) dict \<Rightarrow> 'k \<Rightarrow> error + 'v" where
  "getitem d k = (case map_of d k of None \<Rightarrow> Inl KeyError | Some v \<Rightarrow> Inr v)"

definition keys :: "('k, 'v) dict \<Rightarrow> 'k list" where
  "keys d = map fst d"

definition wf_dict :: "('k, 'v) dict \<Rightarrow> bool" where
  "wf_dict d = distinct (keys d)"

text \<open>
  \<open>xs[i]\<close> on a list: an index from 0 below the length reads from the front, one from
  minus the length below 0 reads from the back, and every other index raises.
\<close>

definition subscript :: "'a list \<Rightarrow> int \<Rightarrow> error + 'a" where
  "subscript xs i =
     (if 0 \<le> i \<and> i < int (length xs) then Inr (xs ! nat i)
      else if - int (length xs) \<le> i \<and> i < 0 then Inr (xs ! nat (int (length xs) + i))
      else Inl IndexError)"

section \<open>The graph model (\<open>networkx.DiGraph\<close>)\<close>

text \<open>
  A directed graph keeps its nodes in insertion order and its edges as a dictionary from
  the ordered pair \<open>(u, v)\<close> to the edge's \<open>weight\<close> attribute (\<open>None\<close> when the edge
  carries no attribute, as in the generated graphs). There are no parallel edges.
\<close>

record 'a digraph =
  nodes :: "'a list"
  edges :: "('a \<times> 'a, int option) dict"

definition wf_digraph :: "'a digraph \<Rightarrow> bool" where
  "wf_digraph G =
     (distinct (nodes G) \<and> wf_dict (edges G) \<and>
      (\<forall>e \<in> set (keys (edges G)). fst e \<in> set (nodes G) \<and> snd e \<in> set (nodes G)))"

definition DiGraph :: "'a digraph" where
  "DiGraph = \<lparr>nodes = [], edges = []\<rparr>"

definition add_node :: "'a digraph \<Rightarrow> 'a \<Rightarrow> 'a digraph" where
  "add_node G n = (if n \<in> set (nodes G) then G else G\<lparr>nodes := nodes G @ [n]\<rparr>)"

definition add_nodes_from :: "'a digraph \<Rightarrow> 'a list \<Rightarrow> 'a digraph" where
  "add_nodes_from G ns = fold (\<lambda>n H. add_node H n) ns G"

definition has_edge :: "'a digraph \<Rightarrow> 'a \<Rightarrow> 'a \<Rightarrow> bool" where
  "has_edge G u v = (map_of (edges G) (u, v) \<noteq> None)"

text \<open>
  \<open>G.add_edge(u, v)\<close> and \<open>G.add_edge(u, v, weight=w)\<close>: both endpoints become nodes, a
  new edge is appended, and on an existing edge only a given attribute is overwritten.
\<close>

definition add_edge :: "'a digraph \<Rightarrow> 'a \<Rightarrow> 'a \<Rightarrow> int option \<Rightarrow> 'a digraph" where
  "add_edge G u v w =
     (let H = add_node (add_node G u) v;
          old = (case map_of (edges H) (u, v) of None \<Rightarrow> None | Some a \<Rightarrow> a)
      in H\<lparr>edges := AList.update (u, v) (case w of None \<Rightarrow> old | Some x \<Rightarrow> Some x) (edges H)\<rparr>)"

definition successors :: "'a digraph \<Rightarrow> 'a \<Rightarrow> 'a list" where
  "successors G u = map snd (filter (\<lambda>e. fst e = u) (keys (edges G)))"

definition predecessors :: "'a digraph \<Rightarrow> 'a \<Rightarrow> 'a list" where
  "predecessors G v = map fst (filter (\<lambda>e. snd e = v) (keys (edges G)))"

text \<open>\<open>G.edges()\<close> lists the out-edges node by node, in node order.\<close>

definition edges_view :: "'a digraph \<Rightarrow> ('a \<times> 'a) list" where
  "edges_view G = concat (map (\<lambda>u. map (Pair u) (successors G u)) (nodes G))"

section \<open>The random source\<close>

text \<open>
  The modules draw from Python's process-wide \<open>random\<close> module. Its state is modelled as
  an unbounded tape of raw numbers that is passed in and returned: \<open>randint a b\<close> maps the
  next raw number into \<open>a..b\<close>, and \<open>sample\<close> draws without replacement by removing each
  chosen position from the pool, so each outcome the library can produce arises from some
  tape.

  \<open>random.sample\<close> first tests that its population is a sequence and raises
  \<open>TypeError\<close> otherwise (CPython 3.11 and later), then raises \<open>ValueError\<close> when the
  requested size is negative or larger than the population. A \<open>range\<close> is a sequence;
  the node view \<open>G.nodes()\<close> of a graph is a set-like mapping and no sequence. Either
  kind of population is given by its elements in iteration order.
\<close>

datatype 'a population = Sequence "'a list" | SetView "'a list"

type_synonym rng = "nat \<Rightarrow> nat"

definition draw :: "rng \<Rightarrow> nat \<times> rng" where
  "draw r = (r 0, \<lambda>i. r (Suc i))"

definition randint :: "int \<Rightarrow> int \<Rightarrow> rng \<Rightarrow> int \<times> rng" where
  "randint a b r = (case draw r of (x, r') \<Rightarrow> (a + int (x mod nat (b - a + 1)), r'))"

fun pick :: "nat \<Rightarrow> 'a list \<Rightarrow> rng \<Rightarrow> 'a list \<times> rng" where
  "pick 0 pool r = ([], r)"
| "pick (Suc k) pool r =
     (case draw r of (x, r1) \<Rightarrow>
        (let i = x mod length pool in
         case pick k (take i pool @ drop (Suc i) pool) r1 of
           (rest, r2) \<Rightarrow> (pool ! i # rest, r2)))"

definition sample :: "'a population \<Rightarrow> int \<Rightarrow> rng \<Rightarrow> error + ('a list \<times> rng)" where
  "sample population k r =
     (case population of
        SetView xs \<Rightarrow> Inl TypeError
      | Sequence xs \<Rightarrow>
          if k < 0 \<or> int (length xs) < k then Inl ValueError
          else Inr (pick (nat k) xs r))"

section \<open>simulateCycles.py\<close>

subsection \<open>\<open>build_toy_brain\<close>\<close>

text \<open>\<open>range(n)\<close>: the integers from 0 below \<open>n\<close>, none when \<open>n\<close> is not positive.\<close>

definition range_py :: "int \<Rightarrow> int list" where
  "range_py n = map int [0..<nat n]"

text \<open>
  The inner loop \<open>for i in range(cycle_length)\<close>, over the indices still to visit. (The
  modulus is taken only inside the loop, so never with \<open>cycle_length = 0\<close>.)
\<close>

fun embed_cycle :: "int digraph \<Rightarrow> int list \<Rightarrow> int \<Rightarrow> int list \<Rightarrow> error + int digraph" where
  "embed_cycle G cycle_nodes cycle_length [] = Inr G"
| "embed_cycle G cycle_nodes cycle_length (i # is) =
     (case subscript cycle_nodes i of
        Inl e \<Rightarrow> Inl e
      | Inr u \<Rightarrow>
          (case subscript cycle_nodes ((i + 1) mod cycle_length) of
             Inl e \<Rightarrow> Inl e
           | Inr v \<Rightarrow> embed_cycle (add_edge G u v None) cycle_nodes cycle_length is))"

text \<open>The outer loop \<open>for _ in range(n_cycles)\<close>, with the number of passes left.\<close>

fun embed_cycles :: "int \<Rightarrow> nat \<Rightarrow> int digraph \<Rightarrow> rng \<Rightarrow> error + int digraph" where
  "embed_cycles n_nodes 0 G r = Inr G"
| "embed_cycles n_nodes (Suc c) G r =
     (case randint 3 6 r of
        (cycle_length, r1) \<Rightarrow>
          (case sample (Sequence (range_py n_nodes)) cycle_length r1 of
             Inl e \<Rightarrow> Inl e
           | Inr (cycle_nodes, r2) \<Rightarrow>
               (case embed_cycle G cycle_nodes cycle_length (range_py cycle_length) of
                  Inl e \<Rightarrow> Inl e
                | Inr G' \<Rightarrow> embed_cycles n_nodes c G' r2)))"

definition build_toy_brain :: "int \<Rightarrow> int \<Rightarrow> rng \<Rightarrow> error + int digraph" where
  "build_toy_brain n_nodes n_cycles r =
     embed_cycles n_nodes (nat n_cycles) (add_nodes_from DiGraph (range_py n_nodes)) r"

subsection \<open>\<open>activate_cycles\<close>\<close>

text \<open>\<open>sum(active[pr] for pr in G.predecessors(node))\<close>: a missing key raises.\<close>

fun active_predecessors :: "('a, bool) dict \<Rightarrow> 'a list \<Rightarrow> error + int" where
  "active_predecessors active [] = Inr 0"
| "active_predecessors active (pr # prs) =
     (case getitem active pr of
        Inl e \<Rightarrow> Inl e
      | Inr b \<Rightarrow>
          (case active_predecessors active prs of
             Inl e \<Rightarrow> Inl e
           | Inr s \<Rightarrow> Inr ((if b then 1 else 0) + s)))"

text \<open>
  The inner loop \<open>for node in G.nodes()\<close>, over the nodes still to visit: it reads
  \<open>active\<close>, the state at the start of the step, and writes \<open>new_active\<close>.
\<close>

fun visit_nodes ::
  "'a digraph \<Rightarrow> int \<Rightarrow> ('a, bool) dict \<Rightarrow> 'a list \<Rightarrow> ('a, bool) dict \<Rightarrow> error + ('a, bool) dict"
where
  "visit_nodes G activation_threshold active [] new_active = Inr new_active"
| "visit_nodes G activation_threshold active (node # ns) new_active =
     (case active_predecessors active (predecessors G node) of
        Inl e \<Rightarrow> Inl e
      | Inr c \<Rightarrow>
          visit_nodes G activation_threshold active ns
            (if c \<ge> activation_threshold then AList.update node True new_active
             else new_active))"

text \<open>One pass of the body of \<open>for t in range(steps)\<close>.\<close>

definition step :: "'a digraph \<Rightarrow> int \<Rightarrow> ('a, bool) dict \<Rightarrow> error + ('a, bool) dict" where
  "step G activation_threshold active =
     visit_nodes G activation_threshold active (nodes G) active"

text \<open>\<open>for t in range(steps)\<close>, with the number of passes left as a natural number.\<close>

fun run_steps :: "'a digraph \<Rightarrow> int \<Rightarrow> nat \<Rightarrow> ('a, bool) dict \<Rightarrow> error + ('a, bool) dict" where
  "run_steps G activation_threshold 0 active = Inr active"
| "run_steps G activation_threshold (Suc t) active =
     (case step G activation_threshold active of
        Inl e \<Rightarrow> Inl e
      | Inr new_active \<Rightarrow> run_steps G activation_threshold t new_active)"

text \<open>
  Lines 43 to 48: every node inactive, then a sampled quarter of the nodes switched on.
  Line 46 hands the node view \<open>G.nodes()\<close> itself to \<open>random.sample\<close>.
\<close>

definition initial_state :: "'a digraph \<Rightarrow> rng \<Rightarrow> error + ('a, bool) dict" where
  "initial_state G r =
     (let active = map (\<lambda>node. (node, False)) (nodes G) in
      case sample (SetView (nodes G)) (int (length (nodes G)) div 4) r of
        Inl e \<Rightarrow> Inl e
      | Inr (start_active, r') \<Rightarrow> Inr (fold (\<lambda>s a. AList.update s True a) start_active active))"

definition activate_cycles ::
  "'a digraph \<Rightarrow> int \<Rightarrow> int \<Rightarrow> rng \<Rightarrow> error + ('a, bool) dict" where
  "activate_cycles G steps activation_threshold r =
     (case initial_state G r of
        Inl e \<Rightarrow> Inl e
      | Inr active \<Rightarrow> run_steps G activation_threshold (nat steps) active)"

section \<open>analysisTools.py\<close>

subsection \<open>\<open>find_all_cycles\<close>\<close>

text \<open>
  \<open>dfs_stack\<close> is a Python list used as a stack: \<open>pop()\<close> takes the last element and
  \<open>append\<close> adds one after it. Here the top of the stack is the head of the list.
  A frame is \<open>(current, path)\<close>.
\<close>

type_synonym 'a frame = "'a \<times> 'a list"

text \<open>The body of \<open>for neighbor in G.successors(current)\<close>.\<close>

fun visit_successor ::
  "'a \<Rightarrow> int \<Rightarrow> 'a list \<Rightarrow> 'a \<Rightarrow> 'a frame list \<times> 'a list list \<Rightarrow> 'a frame list \<times> 'a list list"
where
  "visit_successor n max_length path neighbor (dfs_stack, cycles) =
     (if neighbor = n \<and> 1 < length path \<and> int (length path) \<le> max_length
      then (dfs_stack, cycles @ [path @ [n]])
      else if neighbor \<notin> set path \<and> int (length path) < max_length
      then ((neighbor, path @ [neighbor]) # dfs_stack, cycles)
      else (dfs_stack, cycles))"

text \<open>
  A frame that can still grow by \<open>d\<close> nodes weighs \<open>(B + 1) ^ d\<close>, where \<open>B\<close> bounds
  the number of successors of a node; popping a frame and pushing its extensions lowers
  the weight of the stack.
\<close>

definition stack_weight :: "nat \<Rightarrow> int \<Rightarrow> 'a frame list \<Rightarrow> nat" where
  "stack_weight B bound st = (\<Sum>f\<leftarrow>st. Suc B ^ nat (bound - int (length (snd f))))"

text \<open>\<open>while dfs_stack:\<close>\<close>

function dfs_while ::
  "'a digraph \<Rightarrow> 'a \<Rightarrow> int \<Rightarrow> 'a frame list \<Rightarrow> 'a list list \<Rightarrow> 'a list list"
where
  "dfs_while G n max_length [] cycles = cycles"
| "dfs_while G n max_length ((current, path) # dfs_stack) cycles =
     (case fold (visit_successor n max_length path) (successors G current) (dfs_stack, cycles) of
        (dfs_stack', cycles') \<Rightarrow> dfs_while G n max_length dfs_stack' cycles')"
  by pat_completeness auto

lemma length_successors: "length (successors G u) \<le> length (edges G)"
  by (simp add: successors_def keys_def)

lemma stack_weight_visit:
  "stack_weight B ml (fst (fold (visit_successor n ml path) ss (st, cy)))
     \<le> stack_weight B ml st
        + length ss * (if int (length path) < ml then Suc B ^ nat (ml - int (length path) - 1) else 0)"
proof (induction ss arbitrary: st cy)
  case Nil
  then show ?case by simp
next
  case (Cons s ss)
  obtain st' cy' where v: "visit_successor n ml path s (st, cy) = (st', cy')"
    by (cases "visit_successor n ml path s (st, cy)")
  have "stack_weight B ml st'
      \<le> stack_weight B ml st
         + (if int (length path) < ml then Suc B ^ nat (ml - int (length path) - 1) else 0)"
  proof -
    have e: "ml - (1 + int (length path)) = ml - int (length path) - 1" by simp
    show ?thesis using v by (auto simp: stack_weight_def e split: if_splits)
  qed
  moreover have "fold (visit_successor n ml path) (s # ss) (st, cy)
      = fold (visit_successor n ml path) ss (st', cy')"
    by (simp only: fold_simps v)
  ultimately show ?case using Cons.IH [of st' cy']
    by (simp del: visit_successor.simps split: if_splits)
qed

lemma frame_weight_decreases:
  assumes "k \<le> B"
  shows "k * (if int (length path) < ml then Suc B ^ nat (ml - int (length path) - 1) else 0)
       < Suc B ^ nat (ml - int (length path))"
proof (cases "int (length path) < ml")
  case True
  then have "nat (ml - int (length path)) = Suc (nat (ml - int (length path) - 1))" by simp
  then have "Suc B ^ nat (ml - int (length path))
      = Suc B * Suc B ^ nat (ml - int (length path) - 1)" by simp
  moreover have "k * Suc B ^ nat (ml - int (length path) - 1)
      < Suc B * Suc B ^ nat (ml - int (length path) - 1)"
    using assms by (intro mult_strict_right_mono) simp_all
  ultimately show ?thesis using True by simp
next
  case False
  then show ?thesis by simp
qed

termination dfs_while
proof (relation "measure (\<lambda>(G, n, ml, st, cy). stack_weight (length (edges G)) ml st)", goal_cases)
  case 1
  show ?case by simp
next
  case (2 G n ml current path st cy st' cy')
  have "st' = fst (fold (visit_successor n ml path) (successors G current) (st, cy))"
    using 2 by (metis fst_conv)
  then have "stack_weight (length (edges G)) ml st'
      \<le> stack_weight (length (edges G)) ml st
        + length (successors G current)
          * (if int (length path) < ml
             then Suc (length (edges G)) ^ nat (ml - int (length path) - 1) else 0)"
    using stack_weight_visit [of "length (edges G)" ml n path "successors G current" st cy]
    by simp
  also have "\<dots> < stack_weight (length (edges G)) ml st
        + Suc (length (edges G)) ^ nat (ml - int (length path))"
    using frame_weight_decreases [of "length (successors G current)" "length (edges G)" path ml]
      length_successors [of G current]
    by simp
  finally show ?case by (simp add: stack_weight_def)
qed

text \<open>\<open>for n in G.nodes():\<close>, each node with a fresh stack and the shared list of cycles.\<close>

definition find_all_cycles :: "'a digraph \<Rightarrow> int \<Rightarrow> 'a list list" where
  "find_all_cycles G max_length =
     fold (\<lambda>n cycles. dfs_while G n max_length [(n, [n])] cycles) (nodes G) []"

section \<open>pcnImplementation.py\<close>

subsection \<open>\<open>collapse_graph\<close>\<close>

text \<open>\<open>H[c_u][c_v]['weight'] += 1\<close>: both subscripts raise on a missing key.\<close>

definition increment_weight :: "'c digraph \<Rightarrow> 'c \<Rightarrow> 'c \<Rightarrow> error + 'c digraph" where
  "increment_weight H c_u c_v =
     (case map_of (edges H) (c_u, c_v) of
        None \<Rightarrow> Inl KeyError
      | Some None \<Rightarrow> Inl KeyError
      | Some (Some w) \<Rightarrow> Inr (H\<lparr>edges := AList.update (c_u, c_v) (Some (w + 1)) (edges H)\<rparr>))"

text \<open>\<open>for (u, v) in G.edges():\<close>, over the edges still to visit.\<close>

fun collapse_edges :: "('a, 'c) dict \<Rightarrow> ('a \<times> 'a) list \<Rightarrow> 'c digraph \<Rightarrow> error + 'c digraph" where
  "collapse_edges clustering [] H = Inr H"
| "collapse_edges clustering ((u, v) # es) H =
     (case getitem clustering u of
        Inl e \<Rightarrow> Inl e
      | Inr c_u \<Rightarrow>
          (case getitem clustering v of
             Inl e \<Rightarrow> Inl e
           | Inr c_v \<Rightarrow>
               if c_u \<noteq> c_v then
                 (if \<not> has_edge H c_u c_v
                  then collapse_edges clustering es (add_edge H c_u c_v (Some 1))
                  else
                    (case increment_weight H c_u c_v of
                       Inl e \<Rightarrow> Inl e
                     | Inr H' \<Rightarrow> collapse_edges clustering es H'))
               else collapse_edges clustering es H))"

text \<open>
  \<open>set(clustering.values())\<close> is a Python set: it holds each value once, and the order
  in which \<open>add_nodes_from\<close> meets its elements is fixed by their hashes, not by the
  clustering. That order is a parameter here: \<open>hash_rank\<close> ranks the cluster
  identifiers, and the set is iterated by increasing rank, so every order of the values
  arises from some ranking.
\<close>

definition collapse_graph ::
  "('c \<Rightarrow> nat) \<Rightarrow> 'a digraph \<Rightarrow> ('a, 'c) dict \<Rightarrow> error + 'c digraph" where
  "collapse_graph hash_rank G clustering =
     (let cluster_nodes = sort_key hash_rank (remdups (map snd clustering));
          H = add_nodes_from DiGraph cluster_nodes
      in collapse_edges clustering (edges_view G) H)"

subsection \<open>\<open>pcn_analysis\<close>\<close>

text \<open>
  The body of \<open>for nbr in G.successors(curr)\<close> (\<open>curr\<close> is \<open>cur\<close> here). \<open>queue\<close> is used as a stack, its top the
  head of the list; a motif is the tuple of the path's nodes.
\<close>

fun extend_path ::
  "'a list \<Rightarrow> 'a \<Rightarrow> 'a frame list \<times> ('a list, int) dict \<Rightarrow> 'a frame list \<times> ('a list, int) dict"
where
  "extend_path path nbr (queue, motif_counts) =
     (let new_path = path @ [nbr] in
      if length new_path \<le> 3
      then ((nbr, new_path) # queue,
            AList.update new_path
              ((case map_of motif_counts new_path of None \<Rightarrow> 0 | Some c \<Rightarrow> c) + 1)
              motif_counts)
      else (queue, motif_counts))"

text \<open>\<open>while queue:\<close>\<close>

function motif_while ::
  "'a digraph \<Rightarrow> 'a frame list \<Rightarrow> ('a list, int) dict \<Rightarrow> ('a list, int) dict"
where
  "motif_while G [] motif_counts = motif_counts"
| "motif_while G ((cur, path) # queue) motif_counts =
     (if length path > 3 then motif_while G queue motif_counts
      else
        (case fold (extend_path path) (successors G cur) (queue, motif_counts) of
           (queue', motif_counts') \<Rightarrow> motif_while G queue' motif_counts'))"
  by pat_completeness auto

lemma stack_weight_extend:
  "stack_weight B 3 (fst (fold (extend_path path) ss (st, mc)))
     \<le> stack_weight B 3 st
        + length ss * (if int (length path) < 3 then Suc B ^ nat (3 - int (length path) - 1) else 0)"
proof (induction ss arbitrary: st mc)
  case Nil
  then show ?case by simp
next
  case (Cons s ss)
  obtain st' mc' where v: "extend_path path s (st, mc) = (st', mc')"
    by (cases "extend_path path s (st, mc)")
  have "stack_weight B 3 st'
      \<le> stack_weight B 3 st
         + (if int (length path) < 3 then Suc B ^ nat (3 - int (length path) - 1) else 0)"
  proof -
    have e: "3 - (1 + int (length path)) = 3 - int (length path) - 1" by simp
    show ?thesis using v by (auto simp: stack_weight_def Let_def e split: if_splits)
  qed
  moreover have "fold (extend_path path) (s # ss) (st, mc) = fold (extend_path path) ss (st', mc')"
    by (simp only: fold_simps v)
  ultimately show ?case using Cons.IH [of st' mc']
    by (simp del: extend_path.simps split: if_splits)
qed

termination motif_while
proof (relation "measure (\<lambda>(G, st, mc). stack_weight (length (edges G)) 3 st)", goal_cases)
  case 1
  show ?case by simp
next
  case (2 G cur path st mc)
  show ?case by (simp add: stack_weight_def)
next
  case (3 G cur path st mc st' mc')
  have "st' = fst (fold (extend_path path) (successors G cur) (st, mc))"
    using 3 by (metis fst_conv)
  then have "stack_weight (length (edges G)) 3 st'
      \<le> stack_weight (length (edges G)) 3 st
        + length (successors G cur)
          * (if int (length path) < 3
             then Suc (length (edges G)) ^ nat (3 - int (length path) - 1) else 0)"
    using stack_weight_extend [of "length (edges G)" path "successors G cur" st mc]
    by simp
  also have "\<dots> < stack_weight (length (edges G)) 3 st
        + Suc (length (edges G)) ^ nat (3 - int (length path))"
    using frame_weight_decreases [of "length (successors G cur)" "length (edges G)" path 3]
      length_successors [of G cur]
    by simp
  finally show ?case by (simp add: stack_weight_def)
qed

text \<open>\<open>for node in G.nodes():\<close>, each node with a fresh stack and the shared table.\<close>

definition pcn_analysis :: "'a digraph \<Rightarrow> ('a list, int) dict" where
  "pcn_analysis G = fold (\<lambda>node motif_counts. motif_while G [(node, [node])] motif_counts) (nodes G) []"

section \<open>Example graphs\<close>

text \<open>The directed 3-cycle, a single isolated node, and a path of three edges.\<close>

definition triangle :: "nat digraph" where
  "triangle = \<lparr>nodes = [0, 1, 2], edges = [((0, 1), None), ((1, 2), None), ((2, 0), None)]\<rparr>"

definition lone_node :: "nat digraph" where
  "lone_node = \<lparr>nodes = [0], edges = []\<rparr>"

definition chain :: "nat digraph" where
  "chain = \<lparr>nodes = [0, 1, 2, 3], edges = [((0, 1), None), ((1, 2), None), ((2, 3), None)]\<rparr>"

section \<open>Auxiliary notions for the proofs\<close>

text \<open>
  The number of active predecessors of a node, and the state one synchronous pass
  produces, in closed form; \<open>lift_step\<close> is one pass on a result that may already be an
  exception, which then stays.
\<close>

definition count_active :: "'a digraph \<Rightarrow> ('a, bool) dict \<Rightarrow> 'a \<Rightarrow> int" where
  "count_active G active n =
     int (length (filter (\<lambda>p. map_of active p = Some True) (predecessors G n)))"

definition next_state :: "'a digraph \<Rightarrow> int \<Rightarrow> ('a, bool) dict \<Rightarrow> ('a, bool) dict" where
  "next_state G th active = map (\<lambda>(k, v). (k, v \<or> th \<le> count_active G active k)) active"

definition lift_step :: "'a digraph \<Rightarrow> int \<Rightarrow> error + ('a, bool) dict \<Rightarrow> error + ('a, bool) dict" where
  "lift_step G th s = (case s of Inl e \<Rightarrow> Inl e | Inr a \<Rightarrow> step G th a)"

text \<open>A graph without self-loops.\<close>

definition loop_free :: "'a digraph \<Rightarrow> bool" where
  "loop_free G = (\<forall>e \<in> set (keys (edges G)). fst e \<noteq> snd e)"

text \<open>
  The cycle lengths the generator draws, pass by pass, from a given tape: each pass
  draws its length first and, when the sampler accepts it, the sampler uses up the tape
  for the pass's nodes; the pass after a refused length is never reached.
\<close>

fun drawn_lengths :: "int \<Rightarrow> nat \<Rightarrow> rng \<Rightarrow> int list" where
  "drawn_lengths n_nodes 0 r = []"
| "drawn_lengths n_nodes (Suc c) r =
     (case randint 3 6 r of
        (cycle_length, r1) \<Rightarrow>
          cycle_length #
            (if n_nodes < cycle_length then []
             else drawn_lengths n_nodes c (snd (pick (nat cycle_length) (range_py n_nodes) r1))))"

text \<open>
  For the collapser: a graph all of whose edges carry a weight, the weight of an edge
  (0 when there is none), the sum of all edge weights, the effect of one cross-cluster
  edge on the collapsed graph (\<open>bump\<close>), the effect of one edge of the source graph
  (\<open>collapse_step\<close>), and the number of listed edges that map to a given pair of
  different clusters.
\<close>

definition weighted :: "'c digraph \<Rightarrow> bool" where
  "weighted H = (\<forall>e \<in> set (edges H). snd e \<noteq> None)"

definition weight_of :: "'c digraph \<Rightarrow> 'c \<times> 'c \<Rightarrow> int" where
  "weight_of H k = (case map_of (edges H) k of Some (Some w) \<Rightarrow> w | _ \<Rightarrow> 0)"

definition total_weight :: "'c digraph \<Rightarrow> int" where
  "total_weight H = (\<Sum>e\<leftarrow>edges H. case snd e of Some w \<Rightarrow> w | None \<Rightarrow> 0)"

definition bump :: "'c digraph \<Rightarrow> 'c \<Rightarrow> 'c \<Rightarrow> 'c digraph" where
  "bump H a b =
     (if has_edge H a b
      then H\<lparr>edges := AList.update (a, b) (Some (weight_of H (a, b) + 1)) (edges H)\<rparr>
      else add_edge H a b (Some 1))"

definition collapse_step :: "('a, 'c) dict \<Rightarrow> 'a \<times> 'a \<Rightarrow> 'c digraph \<Rightarrow> 'c digraph" where
  "collapse_step clustering e H =
     (case (map_of clustering (fst e), map_of clustering (snd e)) of
        (Some a, Some b) \<Rightarrow> if a \<noteq> b then bump H a b else H
      | _ \<Rightarrow> H)"

definition crossings :: "('a, 'c) dict \<Rightarrow> 'c \<times> 'c \<Rightarrow> ('a \<times> 'a) list \<Rightarrow> nat" where
  "crossings clustering k es =
     length (filter (\<lambda>e. map_of clustering (fst e) = Some (fst k) \<and>
                          map_of clustering (snd e) = Some (snd k) \<and> fst k \<noteq> snd k) es)"

text \<open>
  For the cycle enumerator: a node sequence along edges of the graph, what holds of every
  frame on the stack during the search from \<open>n\<close>, and what holds of every cycle emitted.
\<close>

definition is_walk :: "'a digraph \<Rightarrow> 'a list \<Rightarrow> bool" where
  "is_walk G p = successively (\<lambda>u v. (u, v) \<in> set (keys (edges G))) p"

definition good_frame :: "'a digraph \<Rightarrow> 'a \<Rightarrow> 'a frame \<Rightarrow> bool" where
  "good_frame G n f =
     (snd f \<noteq> [] \<and> hd (snd f) = n \<and> last (snd f) = fst f \<and> distinct (snd f) \<and> is_walk G (snd f))"

definition good_cycle :: "'a digraph \<Rightarrow> int \<Rightarrow> 'a list \<Rightarrow> bool" where
  "good_cycle G max_length c =
     (c \<noteq> [] \<and> hd c = last c \<and> distinct (butlast c) \<and> is_walk G c \<and>
      2 \<le> length c - 1 \<and> int (length c - 1) \<le> max_length)"

section \<open>Facts about the library model\<close>

lemma wf_triangle: "wf_digraph triangle"
  by (simp add: wf_digraph_def wf_dict_def keys_def triangle_def)

lemma pick_props:
  "k \<le> length pool \<Longrightarrow>
   length (fst (pick k pool r)) = k \<and> set (fst (pick k pool r)) \<subseteq> set pool \<and>
   (distinct pool \<longrightarrow> distinct (fst (pick k pool r)))"
proof (induction k arbitrary: pool r)
  case 0
  then show ?case by simp
next
  case (Suc k)
  define i where "i = r 0 mod length pool"
  define pool' where "pool' = take i pool @ drop (Suc i) pool"
  define r1 :: rng where "r1 = (\<lambda>j. r (Suc j))"
  have "0 < length pool" using Suc.prems by (cases pool) simp_all
  then have i: "i < length pool" unfolding i_def by (rule mod_less_divisor)
  then have len: "k \<le> length pool'" using Suc.prems by (simp add: pool'_def)
  have sub: "set pool' \<subseteq> set pool"
    by (auto simp: pool'_def dest: in_set_takeD in_set_dropD)
  have notin: "distinct pool \<Longrightarrow> pool ! i \<notin> set pool'"
  proof -
    assume d: "distinct pool"
    have "pool = take i pool @ pool ! i # drop (Suc i) pool"
      using i by (simp add: id_take_nth_drop)
    then have "distinct (take i pool @ pool ! i # drop (Suc i) pool)" using d by simp
    then show ?thesis by (auto simp: pool'_def)
  qed
  have dist: "distinct pool \<Longrightarrow> distinct pool'"
  proof -
    assume d: "distinct pool"
    have "pool = take i pool @ pool ! i # drop (Suc i) pool"
      using i by (simp add: id_take_nth_drop)
    then have "distinct (take i pool @ pool ! i # drop (Suc i) pool)" using d by simp
    then show ?thesis by (auto simp: pool'_def)
  qed
  have eq: "fst (pick (Suc k) pool r) = pool ! i # fst (pick k pool' r1)"
    by (simp add: draw_def i_def pool'_def r1_def Let_def split: prod.splits)
  from Suc.IH [OF len, of r1] sub notin dist i show ?case
    unfolding eq by auto
qed

text \<open>
  The random source leaves nothing out: every value of the range is a result of
  \<open>randint\<close>, and every sequence of distinct elements of the population is a result
  of the sampler, each with any tape left over for the draws that follow.
\<close>

lemma randint_covers:
  assumes "a \<le> v" and "v \<le> b"
  shows "\<exists>r. randint a b r = (v, r')"
proof -
  let ?r = "\<lambda>i. case i of 0 \<Rightarrow> nat (v - a) | Suc j \<Rightarrow> r' j"
  have "nat (v - a) mod nat (b - a + 1) = nat (v - a)" using assms by simp
  then have "randint a b ?r = (v, r')" using assms by (simp add: randint_def draw_def)
  then show ?thesis by blast
qed

lemma pick_covers:
  assumes "distinct xs" and "distinct pool" and "set xs \<subseteq> set pool"
  shows "\<exists>r. pick (length xs) pool r = (xs, r')"
  using assms
proof (induction xs arbitrary: pool)
  case Nil
  then show ?case by simp
next
  case (Cons x xs)
  then obtain i where i: "i < length pool" "pool ! i = x" by (auto simp: in_set_conv_nth)
  let ?pool = "take i pool @ drop (Suc i) pool"
  have split: "pool = take i pool @ pool ! i # drop (Suc i) pool"
    using i(1) by (rule id_take_nth_drop)
  have d: "distinct ?pool"
    using Cons.prems(2) by (simp add: set_take_disj_set_drop_if_distinct)
  have "set pool = set (take i pool @ pool ! i # drop (Suc i) pool)"
    using split by (rule arg_cong)
  then have "set pool = insert x (set ?pool)" using i(2) by simp
  then have s: "set xs \<subseteq> set ?pool" using Cons.prems(1,3) by auto
  obtain r1 where r1: "pick (length xs) ?pool r1 = (xs, r')"
    using Cons.IH [OF _ d s] Cons.prems(1) by auto
  let ?r = "\<lambda>j. case j of 0 \<Rightarrow> i | Suc k \<Rightarrow> r1 k"
  have "pick (length (x # xs)) pool ?r = (x # xs, r')"
    using i r1 by (simp add: draw_def)
  then show ?case by blast
qed

section \<open>The activation simulator\<close>

lemma getitem_key:
  "k \<in> set (keys d) \<Longrightarrow> \<exists>v. map_of d k = Some v \<and> getitem d k = Inr v"
  by (cases "map_of d k") (auto simp: getitem_def keys_def map_of_eq_None_iff)

lemma active_predecessors_total:
  "set prs \<subseteq> set (keys active) \<Longrightarrow>
   active_predecessors active prs =
     Inr (int (length (filter (\<lambda>p. map_of active p = Some True) prs)))"
proof (induction prs)
  case Nil
  then show ?case by simp
next
  case (Cons pr prs)
  then obtain b where "map_of active pr = Some b" "getitem active pr = Inr b"
    using getitem_key [of pr active] by auto
  with Cons show ?case by simp
qed

lemma update_True_existing:
  "distinct (map fst al) \<Longrightarrow> k \<in> fst ` set al \<Longrightarrow>
   AList.update k True al = map (\<lambda>(k', v). (k', v \<or> k' = k)) al"
proof (induction al)
  case Nil
  then show ?case by simp
next
  case (Cons p ps)
  show ?case
  proof (cases "fst p = k")
    case True
    with Cons.prems have "\<forall>q \<in> set ps. fst q \<noteq> k" by (auto simp: image_iff)
    then have "map (\<lambda>(k', v). (k', v \<or> k' = k)) ps = ps"
      by (intro map_idI) auto
    with True show ?thesis by (cases p) simp
  next
    case False
    with Cons show ?thesis by (cases p) auto
  qed
qed

lemma visit_nodes_closed:
  assumes "\<forall>n \<in> set ns. set (predecessors G n) \<subseteq> set (keys active)"
    and "distinct (map fst new)" and "set ns \<subseteq> fst ` set new"
  shows "visit_nodes G th active ns new =
    Inr (map (\<lambda>(k, v). (k, v \<or> (k \<in> set ns \<and> th \<le> count_active G active k))) new)"
  using assms
proof (induction ns arbitrary: new)
  case Nil
  then show ?case by simp
next
  case (Cons n ns)
  let ?new' = "if th \<le> count_active G active n then AList.update n True new else new"
  have c: "active_predecessors active (predecessors G n) = Inr (count_active G active n)"
    using Cons.prems(1) by (simp add: active_predecessors_total count_active_def)
  have k: "map fst ?new' = map fst new"
    using Cons.prems by (auto simp: update_True_existing case_prod_beta comp_def)
  have "visit_nodes G th active ns ?new' =
    Inr (map (\<lambda>(k, v). (k, v \<or> (k \<in> set ns \<and> th \<le> count_active G active k))) ?new')"
  proof (intro Cons.IH)
    show "\<forall>n\<in>set ns. set (predecessors G n) \<subseteq> set (keys active)"
      using Cons.prems(1) by simp
    show "distinct (map fst ?new')" using k Cons.prems(2) by metis
    have "fst ` set ?new' = set (map fst ?new')" by simp
    then show "set ns \<subseteq> fst ` set ?new'" using k Cons.prems(3) by (metis list.set_map set_subset_Cons subset_trans)
  qed
  moreover have "map (\<lambda>(k, v). (k, v \<or> (k \<in> set ns \<and> th \<le> count_active G active k))) ?new'
     = map (\<lambda>(k, v). (k, v \<or> (k \<in> set (n # ns) \<and> th \<le> count_active G active k))) new"
    using Cons.prems by (auto simp: update_True_existing)
  ultimately show ?case using c by simp
qed

lemma predecessors_nodes:
  "wf_digraph G \<Longrightarrow> set (predecessors G n) \<subseteq> set (nodes G)"
  by (auto simp: wf_digraph_def predecessors_def)


lemma step_next_state:
  assumes "wf_digraph G" "wf_dict active" "set (keys active) = set (nodes G)"
  shows "step G th active = Inr (next_state G th active)"
proof -
  have "step G th active =
    Inr (map (\<lambda>(k, v). (k, v \<or> (k \<in> set (nodes G) \<and> th \<le> count_active G active k))) active)"
    unfolding step_def using assms predecessors_nodes [OF assms(1)]
    by (intro visit_nodes_closed) (auto simp: wf_dict_def keys_def)
  also have "map (\<lambda>(k, v). (k, v \<or> (k \<in> set (nodes G) \<and> th \<le> count_active G active k))) active
     = next_state G th active"
    unfolding next_state_def using assms(3) by (auto simp: keys_def rev_image_eqI)
  finally show ?thesis .
qed

lemma keys_next_state: "keys (next_state G th active) = keys active"
  by (simp add: next_state_def keys_def case_prod_beta comp_def)

lemma map_of_next_state:
  "map_of (next_state G th active) n =
     map_option (\<lambda>v. v \<or> th \<le> count_active G active n) (map_of active n)"
proof -
  have "map_of (map (\<lambda>(k, v). (k, f k v)) al) n = map_option (f n) (map_of al n)" for f :: "'a \<Rightarrow> bool \<Rightarrow> bool" and al
    by (induction al) auto
  then show ?thesis unfolding next_state_def .
qed

lemma run_steps_closed:
  assumes "wf_digraph G" "wf_dict active" "set (keys active) = set (nodes G)"
  shows "run_steps G th t active = Inr ((next_state G th ^^ t) active)"
  using assms(2,3)
proof (induction t arbitrary: active)
  case 0
  then show ?case by simp
next
  case (Suc t)
  have "run_steps G th t (next_state G th active) = Inr ((next_state G th ^^ t) (next_state G th active))"
    using Suc.prems by (intro Suc.IH) (simp_all add: wf_dict_def keys_next_state)
  then show ?case
    using step_next_state [OF assms(1) Suc.prems] by (simp add: funpow_swap1)
qed


lemma getitem_True: "getitem d k = Inr True \<longleftrightarrow> map_of d k = Some True"
  by (simp add: getitem_def split: option.splits)



lemma lift_step_Inr [simp]: "lift_step G th (Inr a) = step G th a"
  by (simp add: lift_step_def)

lemma lift_step_Inl [simp]: "lift_step G th (Inl e) = Inl e"
  by (simp add: lift_step_def)





lemma run_steps_add:
  "run_steps G th (t + k) active =
     (case run_steps G th t active of Inl e \<Rightarrow> Inl e | Inr s \<Rightarrow> run_steps G th k s)"
  by (induction t arbitrary: active) (simp_all split: sum.splits)

lemma run_steps_fixed: "step G th s = Inr s \<Longrightarrow> run_steps G th k s = Inr s"
  by (induction k) simp_all

lemma next_state_pow_keys: "keys ((next_state G th ^^ t) active) = keys active"
  by (induction t) (simp_all add: keys_next_state)

lemma next_state_pow_mono:
  "map_of active n = Some True \<Longrightarrow> map_of ((next_state G th ^^ d) active) n = Some True"
  by (induction d) (simp_all add: map_of_next_state)

lemma visit_nodes_keeps_active:
  "visit_nodes G th active ns new = Inr a' \<Longrightarrow> map_of new n = Some True \<Longrightarrow>
   map_of a' n = Some True"
proof (induction ns arbitrary: new)
  case Nil
  then show ?case by simp
next
  case (Cons m ns)
  then show ?case
    by (auto split: sum.splits if_splits simp: update_conv')
qed


lemma next_state_all_active:
  assumes "th \<le> 0" and "n \<in> set (keys active)"
  shows "map_of (next_state G th active) n = Some True"
proof -
  obtain v where "map_of active n = Some v" using getitem_key [OF assms(2)] by auto
  moreover have "th \<le> count_active G active n" using assms(1) by (simp add: count_active_def)
  ultimately show ?thesis by (simp add: map_of_next_state)
qed

lemma run_steps_monotone:
  assumes "wf_digraph G" and "wf_dict active" and "set (keys active) = set (nodes G)"
    and "t \<le> t'"
  shows "\<exists>s s'. run_steps G th t active = Inr s \<and> run_steps G th t' active = Inr s' \<and>
            (getitem s n = Inr True \<longrightarrow> getitem s' n = Inr True)"
proof -
  obtain d where d: "t' = d + t" using assms(4) by (metis le_add_diff_inverse2)
  have "run_steps G th t active = Inr ((next_state G th ^^ t) active)"
    and "run_steps G th t' active = Inr ((next_state G th ^^ d) ((next_state G th ^^ t) active))"
    using run_steps_closed [OF assms(1-3)] by (simp_all add: d funpow_add)
  moreover have "getitem ((next_state G th ^^ t) active) n = Inr True \<longrightarrow>
     getitem ((next_state G th ^^ d) ((next_state G th ^^ t) active)) n = Inr True"
    by (simp add: getitem_True next_state_pow_mono)
  ultimately show ?thesis by blast
qed


lemma run_steps_fixed_point:
  assumes "run_steps G th t active = Inr s" and "run_steps G th (Suc t) active = Inr s"
  shows "run_steps G th (t + k) active = Inr s"
proof -
  have "run_steps G th (t + 1) active = step G th s"
    using assms(1) by (simp only: run_steps_add) (simp split: sum.splits)
  then have "step G th s = Inr s" using assms(2) by simp
  then show ?thesis using assms(1) by (simp add: run_steps_add run_steps_fixed)
qed



text \<open>
  Claim C5. Activation never decreases: from any state over the graph's nodes, a node
  active after \<open>t\<close> passes is active after every larger number \<open>t'\<close> of passes of the same
  run (both states exist), and no single pass turns an active node inactive.
\<close>

theorem activation_monotone:
  assumes "wf_digraph G" and "wf_dict active" and "set (keys active) = set (nodes G)"
    and "t < t'"
  shows "(\<exists>s s'. run_steps G th t active = Inr s \<and> run_steps G th t' active = Inr s' \<and>
            (getitem s n = Inr True \<longrightarrow> getitem s' n = Inr True))
       \<and> (\<forall>a a'. step G th a = Inr a' \<and> getitem a n = Inr True \<longrightarrow> getitem a' n = Inr True)"
proof (intro conjI allI impI)
  show "\<exists>s s'. run_steps G th t active = Inr s \<and> run_steps G th t' active = Inr s' \<and>
            (getitem s n = Inr True \<longrightarrow> getitem s' n = Inr True)"
    using assms(1-3) less_imp_le [OF assms(4)] by (rule run_steps_monotone)
next
  fix a a' assume "step G th a = Inr a' \<and> getitem a n = Inr True"
  then show "getitem a' n = Inr True"
    using visit_nodes_keeps_active [of G th a "nodes G" a a' n]
    by (simp add: step_def getitem_True)
qed

theorem activation_monotone_witness:
  "wf_digraph triangle \<and> wf_dict [(0::nat, True), (1, False), (2, False)] \<and>
   set (keys [(0::nat, True), (1, False), (2, False)]) = set (nodes triangle) \<and>
   (1::nat) < 2 \<and>
   run_steps triangle 1 1 [(0, True), (1, False), (2, False)] = Inr [(0, True), (1, True), (2, False)] \<and>
   getitem [(0::nat, True), (1, True), (2, False)] 1 = Inr True \<and>
   (\<exists>s'. run_steps triangle 1 2 [(0, True), (1, False), (2, False)] = Inr s' \<and>
         getitem s' 1 = Inr True)"
proof -
  let ?a = "[(0::nat, True), (1, False), (2, False)]"
  have h1: "wf_digraph triangle" by (rule wf_triangle)
  have h2: "wf_dict ?a" by (simp add: wf_dict_def keys_def)
  have h3: "set (keys ?a) = set (nodes triangle)" by (auto simp: keys_def triangle_def)
  have h4: "(1::nat) < 2" by simp
  have s: "run_steps triangle 1 1 ?a = Inr [(0, True), (1, True), (2, False)]"
    by (simp add: step_def triangle_def predecessors_def keys_def getitem_def)
  have g: "getitem [(0::nat, True), (1, True), (2, False)] 1 = Inr True"
    by (simp add: getitem_def)
  from activation_monotone [OF h1 h2 h3 h4, of 1 1] s g
  have "\<exists>s'. run_steps triangle 1 2 ?a = Inr s' \<and> getitem s' 1 = Inr True" by auto
  with h1 h2 h3 h4 s g show ?thesis by blast
qed

text \<open>
  Claim C6. A fixed point stays: when the states after \<open>t\<close> and after \<open>t + 1\<close> passes are
  the same state, the state after \<open>t + k\<close> passes is that state too.
\<close>

theorem activation_fixed_point:
  assumes "run_steps G th t active = Inr s" and "run_steps G th (Suc t) active = Inr s"
  shows "run_steps G th (t + k) active = Inr s"
  using assms by (rule run_steps_fixed_point)

text \<open>
  On the path \<open>0 \<rightarrow> 1 \<rightarrow> 2 \<rightarrow> 3\<close> with node 0 active and threshold 1, each of the first
  three passes switches one more node on; the fourth changes nothing, and neither do the
  five after it.
\<close>

lemma chain_three_passes:
  "run_steps chain 1 (Suc (Suc (Suc 0))) [(0, True), (1, False), (2, False), (3, False)]
     = Inr [(0, True), (1, True), (2, True), (3, True)]"
  by (simp add: step_def chain_def predecessors_def keys_def getitem_def)

lemma chain_four_passes:
  "run_steps chain 1 (Suc (Suc (Suc (Suc 0)))) [(0, True), (1, False), (2, False), (3, False)]
     = Inr [(0, True), (1, True), (2, True), (3, True)]"
  by (simp add: step_def chain_def predecessors_def keys_def getitem_def)

lemma chain_two_passes:
  "run_steps chain 1 (Suc (Suc 0)) [(0, True), (1, False), (2, False), (3, False)]
     = Inr [(0, True), (1, True), (2, True), (3, False)]"
  by (simp add: step_def chain_def predecessors_def keys_def getitem_def)

theorem activation_fixed_point_witness:
  "run_steps chain 1 (Suc (Suc 0)) [(0, True), (1, False), (2, False), (3, False)]
     = Inr [(0, True), (1, True), (2, True), (3, False)] \<and>
   run_steps chain 1 (Suc (Suc (Suc 0))) [(0, True), (1, False), (2, False), (3, False)]
     = Inr [(0, True), (1, True), (2, True), (3, True)] \<and>
   run_steps chain 1 (Suc (Suc (Suc (Suc 0)))) [(0, True), (1, False), (2, False), (3, False)]
     = Inr [(0, True), (1, True), (2, True), (3, True)] \<and>
   run_steps chain 1 (Suc (Suc (Suc 0)) + 5) [(0, True), (1, False), (2, False), (3, False)]
     = Inr [(0, True), (1, True), (2, True), (3, True)]"
  using activation_fixed_point [OF chain_three_passes chain_four_passes, of 5]
    chain_two_passes chain_three_passes chain_four_passes
  by blast

text \<open>
  Claim C8, as stated, fails. A negative threshold is not rejected as a configuration
  error: on a single node the simulator raises the sampler's \<open>TypeError\<close> with threshold
  \<open>-1\<close> exactly as it does with threshold 1, which the claim says succeeds, and the
  update loop itself runs with threshold \<open>-1\<close> and switches the node on.
\<close>

theorem activate_cycles_negative_threshold_counterexample:
  "activate_cycles lone_node 1 (- 1) (\<lambda>_. 0) = Inl TypeError \<and>
   activate_cycles lone_node 1 1 (\<lambda>_. 0) = Inl TypeError \<and>
   run_steps lone_node (- 1) (Suc 0) [(0, False)] = Inr [(0, True)]"
  by (simp add: activate_cycles_def initial_state_def sample_def step_def lone_node_def
      predecessors_def keys_def)

text \<open>
  Claim C8, amended. The simulator never looks at the sign of the threshold: an error
  of the simulator is the same for every threshold, and the update loop has no error
  condition. From every state over the nodes of a graph the loop completes for every
  threshold, negative ones too, and every number of passes, with a state over the same
  nodes; with a threshold of at most 0 and at least one pass every node of the result
  is active; on a graph without nodes the state stays empty.
\<close>

theorem activation_loop_accepts_every_threshold:
  assumes "wf_digraph G" and "wf_dict active" and "set (keys active) = set (nodes G)"
  shows "(\<exists>s. run_steps G th t active = Inr s \<and> keys s = keys active \<and>
            (th \<le> 0 \<and> 0 < t \<longrightarrow> (\<forall>n \<in> set (nodes G). getitem s n = Inr True)) \<and>
            (nodes G = [] \<longrightarrow> s = []))
       \<and> (\<forall>e th'. activate_cycles G steps th r = Inl e \<longrightarrow>
             activate_cycles G steps th' r = Inl e)"
proof (intro conjI allI impI)
  let ?s = "(next_state G th ^^ t) active"
  have run: "run_steps G th t active = Inr ?s"
    using assms by (rule run_steps_closed)
  have ks: "keys ?s = keys active" by (rule next_state_pow_keys)
  have "\<forall>n \<in> set (nodes G). getitem ?s n = Inr True" if neg: "th \<le> 0" and pos: "0 < t"
  proof
    fix n assume n: "n \<in> set (nodes G)"
    obtain u where u: "t = Suc u" using pos by (cases t) auto
    have "map_of (next_state G th active) n = Some True"
      using next_state_all_active [OF neg, of n active G] n assms(3) by simp
    then have "map_of ((next_state G th ^^ u) (next_state G th active)) n = Some True"
      by (rule next_state_pow_mono)
    then show "getitem ?s n = Inr True"
      by (simp add: u funpow_swap1 getitem_True)
  qed
  moreover have "?s = []" if "nodes G = []"
  proof -
    have "keys active = []" using assms(3) that by simp
    then show ?thesis using ks by (simp add: keys_def)
  qed
  ultimately show "\<exists>s. run_steps G th t active = Inr s \<and> keys s = keys active \<and>
            (th \<le> 0 \<and> 0 < t \<longrightarrow> (\<forall>n \<in> set (nodes G). getitem s n = Inr True)) \<and>
            (nodes G = [] \<longrightarrow> s = [])"
    using run ks by blast
next
  fix e th' assume "activate_cycles G steps th r = Inl e"
  then show "activate_cycles G steps th' r = Inl e"
    by (simp add: activate_cycles_def initial_state_def sample_def)
qed

theorem activation_loop_accepts_every_threshold_witness:
  "wf_digraph triangle \<and> wf_dict [(0::nat, True), (1, False), (2, False)] \<and>
   set (keys [(0::nat, True), (1, False), (2, False)]) = set (nodes triangle) \<and>
   (\<exists>s. run_steps triangle (- 3) 2 [(0, True), (1, False), (2, False)] = Inr s \<and>
        keys s = keys [(0::nat, True), (1, False), (2, False)] \<and>
        getitem s 0 = Inr True \<and> getitem s 1 = Inr True \<and> getitem s 2 = Inr True) \<and>
   activate_cycles triangle 2 (- 3) (\<lambda>_. 0) = Inl TypeError \<and>
   activate_cycles triangle 2 7 (\<lambda>_. 0) = Inl TypeError"
proof -
  let ?a = "[(0::nat, True), (1, False), (2, False)]"
  have h1: "wf_digraph triangle" by (rule wf_triangle)
  have h2: "wf_dict ?a" by (simp add: wf_dict_def keys_def)
  have h3: "set (keys ?a) = set (nodes triangle)" by (auto simp: keys_def triangle_def)
  have e: "activate_cycles triangle 2 (- 3) (\<lambda>_. 0) = Inl TypeError"
    by (simp add: activate_cycles_def initial_state_def sample_def)
  have n: "set (nodes triangle) = {0, 1, 2}" by (auto simp: triangle_def)
  note inst = activation_loop_accepts_every_threshold [OF h1 h2 h3, of "- 3" 2 2 "\<lambda>_. 0"]
  from inst obtain s where s: "run_steps triangle (- 3) 2 ?a = Inr s" "keys s = keys ?a"
    and a: "(- 3 :: int) \<le> 0 \<and> (0::nat) < 2 \<longrightarrow>
              (\<forall>n \<in> set (nodes triangle). getitem s n = Inr True)"
    by blast
  from a have "\<forall>n \<in> set (nodes triangle). getitem s n = Inr True" by simp
  then have g: "getitem s 0 = Inr True" "getitem s 1 = Inr True" "getitem s 2 = Inr True"
    unfolding n by simp_all
  from inst e have e7: "activate_cycles triangle 2 7 (\<lambda>_. 0) = Inl TypeError" by blast
  show ?thesis using h1 h2 h3 s g e e7 by blast
qed

section \<open>The graph generator\<close>

lemma edges_add_node [simp]: "edges (add_node G n) = edges G"
  by (simp add: add_node_def)

lemma keys_edges_add_edge:
  "set (keys (edges (add_edge G u v w))) = insert (u, v) (set (keys (edges G)))"
  by (auto simp: add_edge_def Let_def keys_def dom_update)

lemma loop_free_add_edge: "loop_free G \<Longrightarrow> u \<noteq> v \<Longrightarrow> loop_free (add_edge G u v w)"
  by (simp add: loop_free_def keys_edges_add_edge)

lemma edges_view_subset: "set (edges_view G) \<subseteq> set (keys (edges G))"
  by (auto simp: edges_view_def successors_def)

lemma randint_3_6: "3 \<le> fst (randint 3 6 r) \<and> fst (randint 3 6 r) \<le> 6"
proof -
  have "r 0 mod 4 < 4" by simp
  then show ?thesis by (simp add: randint_def draw_def)
qed

lemma length_range_py [simp]: "length (range_py n) = nat n"
  by (simp add: range_py_def)

lemma distinct_range_py: "distinct (range_py n)"
  by (simp add: range_py_def distinct_map inj_on_def)

lemma set_range_py: "set (range_py n) = {0..<n}"
proof -
  have "int ` {0..<nat n} = {0..<n}"
    by (cases "0 \<le> n") (simp_all add: image_int_atLeastLessThan)
  then show ?thesis by (simp add: range_py_def)
qed

lemma subscript_in_range:
  "0 \<le> i \<Longrightarrow> i < int (length xs) \<Longrightarrow> subscript xs i = Inr (xs ! nat i)"
  by (simp add: subscript_def)

lemma embed_cycle_result:
  assumes "int (length cn) = cl" and "set is \<subseteq> {0..<cl}"
  shows "embed_cycle G cn cl is =
    Inr (fold (\<lambda>i H. add_edge H (cn ! nat i) (cn ! nat ((i + 1) mod cl)) None) is G)"
  using assms(2)
proof (induction "is" arbitrary: G)
  case Nil
  then show ?case by simp
next
  case (Cons i js)
  then have i: "0 \<le> i" "i < cl" by simp_all
  then have m: "0 \<le> (i + 1) mod cl" "(i + 1) mod cl < cl" by simp_all
  have "subscript cn i = Inr (cn ! nat i)"
    using i assms(1) by (intro subscript_in_range) simp_all
  moreover have "subscript cn ((i + 1) mod cl) = Inr (cn ! nat ((i + 1) mod cl))"
    using m assms(1) by (intro subscript_in_range) simp_all
  ultimately show ?case using Cons by simp
qed

lemma consecutive_differ:
  assumes "distinct cn" and "int (length cn) = cl" and "2 \<le> cl" and "0 \<le> i" and "i < cl"
  shows "cn ! nat i \<noteq> cn ! nat ((i + 1) mod cl)"
proof -
  have "(i + 1) mod cl \<noteq> i"
  proof (cases "i + 1 < cl")
    case True
    then show ?thesis using assms(4) by simp
  next
    case False
    then have "i + 1 = cl" using assms(5) by simp
    then show ?thesis using assms(3) by auto
  qed
  moreover have "0 \<le> (i + 1) mod cl" "(i + 1) mod cl < cl" using assms(3) by simp_all
  ultimately have "nat i \<noteq> nat ((i + 1) mod cl)" "nat i < length cn" "nat ((i + 1) mod cl) < length cn"
    using assms(2,4,5) by linarith+
  then show ?thesis using assms(1) by (simp add: nth_eq_iff_index_eq)
qed

lemma loop_free_embed:
  assumes "distinct cn" and "int (length cn) = cl" and "2 \<le> cl" and "set is \<subseteq> {0..<cl}"
    and "loop_free G"
  shows "loop_free (fold (\<lambda>i H. add_edge H (cn ! nat i) (cn ! nat ((i + 1) mod cl)) None) is G)"
  using assms(4,5)
proof (induction "is" arbitrary: G)
  case Nil
  then show ?case by simp
next
  case (Cons i js)
  have "cn ! nat i \<noteq> cn ! nat ((i + 1) mod cl)"
    using Cons.prems(1) by (intro consecutive_differ [OF assms(1-3)]) simp_all
  then have "loop_free (add_edge G (cn ! nat i) (cn ! nat ((i + 1) mod cl)) None)"
    using Cons.prems(2) by (rule loop_free_add_edge [rotated])
  then show ?case using Cons by simp
qed

text \<open>One embedding pass: the sampler refuses, or the pass yields a graph.\<close>

lemma sample_cases:
  "(int (length pop) < k \<and> sample (Sequence pop) k r = Inl ValueError) \<or>
   (k < 0 \<and> sample (Sequence pop) k r = Inl ValueError) \<or>
   (0 \<le> k \<and> k \<le> int (length pop) \<and>
    (\<exists>xs r'. sample (Sequence pop) k r = Inr (xs, r') \<and> int (length xs) = k \<and> set xs \<subseteq> set pop \<and>
       (distinct pop \<longrightarrow> distinct xs)))"
proof (cases "k < 0 \<or> int (length pop) < k")
  case True
  then show ?thesis by (auto simp: sample_def)
next
  case False
  then have k: "nat k \<le> length pop" by linarith
  obtain xs r' where p: "pick (nat k) pop r = (xs, r')" by (cases "pick (nat k) pop r")
  with pick_props [OF k, of r] False show ?thesis by (auto simp: sample_def)
qed

lemma embed_cycles_cases:
  "embed_cycles n c G r = Inl ValueError \<or>
   (\<exists>G'. embed_cycles n c G r = Inr G' \<and> (loop_free G \<longrightarrow> loop_free G'))"
proof (induction c arbitrary: G r)
  case 0
  then show ?case by simp
next
  case (Suc c)
  obtain cl r1 where ri: "randint 3 6 r = (cl, r1)" by (cases "randint 3 6 r")
  then have cl: "3 \<le> cl" "cl \<le> 6" using randint_3_6 [of r] by simp_all
  from sample_cases [of "range_py n" cl r1] cl
  consider "sample (Sequence (range_py n)) cl r1 = Inl ValueError"
    | cn r2 where "sample (Sequence (range_py n)) cl r1 = Inr (cn, r2)" "int (length cn) = cl" "distinct cn"
    using distinct_range_py by auto
  then show ?case
  proof cases
    case 1
    then show ?thesis by (simp add: ri)
  next
    case 2
    let ?G' = "fold (\<lambda>i H. add_edge H (cn ! nat i) (cn ! nat ((i + 1) mod cl)) None) (range_py cl) G"
    have s: "set (range_py cl) \<subseteq> {0..<cl}" by (simp add: set_range_py)
    have e: "embed_cycle G cn cl (range_py cl) = Inr ?G'"
      using 2(2) s by (rule embed_cycle_result)
    have l: "loop_free G \<longrightarrow> loop_free ?G'"
      using loop_free_embed [OF 2(3) 2(2) _ s] cl by simp
    from Suc.IH [of ?G' r2] l show ?thesis by (auto simp: ri 2(1) e)
  qed
qed

lemma embed_cycles_large:
  "6 \<le> n \<Longrightarrow> \<exists>G'. embed_cycles n c G r = Inr G'"
proof (induction c arbitrary: G r)
  case 0
  then show ?case by simp
next
  case (Suc c)
  obtain cl r1 where ri: "randint 3 6 r = (cl, r1)" by (cases "randint 3 6 r")
  then have cl: "3 \<le> cl" "cl \<le> 6" using randint_3_6 [of r] by simp_all
  from sample_cases [of "range_py n" cl r1] cl Suc.prems
  obtain cn r2 where 2: "sample (Sequence (range_py n)) cl r1 = Inr (cn, r2)" "int (length cn) = cl"
    by auto
  have s: "set (range_py cl) \<subseteq> {0..<cl}" by (simp add: set_range_py)
  have e: "embed_cycle G cn cl (range_py cl) =
    Inr (fold (\<lambda>i H. add_edge H (cn ! nat i) (cn ! nat ((i + 1) mod cl)) None) (range_py cl) G)"
    using 2(2) s by (rule embed_cycle_result)
  from Suc.IH [OF Suc.prems] show ?case by (simp add: ri 2(1) e)
qed

lemma embed_cycles_small:
  "n < 3 \<Longrightarrow> embed_cycles n (Suc c) G r = Inl ValueError"
proof -
  assume n: "n < 3"
  obtain cl r1 where ri: "randint 3 6 r = (cl, r1)" by (cases "randint 3 6 r")
  then have cl: "3 \<le> cl" using randint_3_6 [of r] by simp
  then have "sample (Sequence (range_py n)) cl r1 = Inl ValueError" using n by (simp add: sample_def)
  then show ?thesis by (simp add: ri)
qed

lemma loop_free_initial: "loop_free (add_nodes_from DiGraph ns)"
proof -
  have "edges (fold (\<lambda>n H. add_node H n) ns G) = edges G" for G :: "'a digraph"
    by (induction ns arbitrary: G) simp_all
  then show ?thesis by (simp add: loop_free_def add_nodes_from_def DiGraph_def keys_def)
qed

lemma build_three: "build_toy_brain 3 1 (\<lambda>_. 0) =
   Inr \<lparr>nodes = [0, 1, 2], edges = [((0, 1), None), ((1, 2), None), ((2, 0), None)]\<rparr>"
  by code_simp

text \<open>
  The outcome of the generator, read off the lengths it draws: it returns a graph when
  every drawn length fits the node count, and the sampler refuses the first that does not.
\<close>

lemma drawn_lengths_range: "\<forall>l \<in> set (drawn_lengths n c r). 3 \<le> l \<and> l \<le> 6"
proof (induction c arbitrary: r)
  case 0
  then show ?case by simp
next
  case (Suc c)
  obtain cl r1 where ri: "randint 3 6 r = (cl, r1)" by (cases "randint 3 6 r")
  then have "3 \<le> cl" "cl \<le> 6" using randint_3_6 [of r] by simp_all
  then show ?case using Suc.IH by (simp add: ri)
qed

lemma embed_cycles_fits:
  "\<forall>l \<in> set (drawn_lengths n c r). l \<le> n \<Longrightarrow> \<exists>G'. embed_cycles n c G r = Inr G'"
proof (induction c arbitrary: G r)
  case 0
  then show ?case by simp
next
  case (Suc c)
  obtain cl r1 where ri: "randint 3 6 r = (cl, r1)" by (cases "randint 3 6 r")
  then have cl: "3 \<le> cl" "cl \<le> 6" using randint_3_6 [of r] by simp_all
  have fit: "cl \<le> n" using Suc.prems by (simp add: ri)
  obtain cn r2 where p: "pick (nat cl) (range_py n) r1 = (cn, r2)"
    by (cases "pick (nat cl) (range_py n) r1")
  have k: "nat cl \<le> length (range_py n)" using fit cl by simp
  have len: "int (length cn) = cl" using pick_props [OF k, of r1] cl by (simp add: p)
  have sm: "sample (Sequence (range_py n)) cl r1 = Inr (cn, r2)"
    using fit cl by (simp add: sample_def p)
  have s: "set (range_py cl) \<subseteq> {0..<cl}" by (simp add: set_range_py)
  have e: "embed_cycle G cn cl (range_py cl) =
    Inr (fold (\<lambda>i H. add_edge H (cn ! nat i) (cn ! nat ((i + 1) mod cl)) None) (range_py cl) G)"
    using len s by (rule embed_cycle_result)
  have rest: "\<forall>l \<in> set (drawn_lengths n c r2). l \<le> n"
    using Suc.prems fit by (simp add: ri p)
  from Suc.IH [OF rest] show ?case by (simp add: ri sm e)
qed

lemma embed_cycles_refused:
  "\<exists>l \<in> set (drawn_lengths n c r). n < l \<Longrightarrow> embed_cycles n c G r = Inl ValueError"
proof (induction c arbitrary: G r)
  case 0
  then show ?case by simp
next
  case (Suc c)
  obtain cl r1 where ri: "randint 3 6 r = (cl, r1)" by (cases "randint 3 6 r")
  then have cl: "3 \<le> cl" "cl \<le> 6" using randint_3_6 [of r] by simp_all
  show ?case
  proof (cases "n < cl")
    case True
    then have "sample (Sequence (range_py n)) cl r1 = Inl ValueError"
      using cl by (simp add: sample_def)
    then show ?thesis by (simp add: ri)
  next
    case False
    obtain cn r2 where p: "pick (nat cl) (range_py n) r1 = (cn, r2)"
      by (cases "pick (nat cl) (range_py n) r1")
    have k: "nat cl \<le> length (range_py n)" using False cl by simp
    have len: "int (length cn) = cl" using pick_props [OF k, of r1] cl by (simp add: p)
    have sm: "sample (Sequence (range_py n)) cl r1 = Inr (cn, r2)"
      using False cl by (simp add: sample_def p)
    have s: "set (range_py cl) \<subseteq> {0..<cl}" by (simp add: set_range_py)
    have e: "embed_cycle G cn cl (range_py cl) =
      Inr (fold (\<lambda>i H. add_edge H (cn ! nat i) (cn ! nat ((i + 1) mod cl)) None) (range_py cl) G)"
      using len s by (rule embed_cycle_result)
    have rest: "\<exists>l \<in> set (drawn_lengths n c r2). n < l"
      using Suc.prems False by (simp add: ri p)
    from Suc.IH [OF rest] show ?thesis by (simp add: ri sm e)
  qed
qed

lemma pick_constant_tape: "snd (pick k pool (\<lambda>_. v)) = (\<lambda>_. v)"
proof (induction k arbitrary: pool)
  case 0
  then show ?case by simp
next
  case (Suc k)
  then show ?case by (simp add: draw_def Let_def split: prod.splits) (metis snd_conv)
qed

lemma drawn_lengths_zero_tape: "\<forall>l \<in> set (drawn_lengths n c (\<lambda>_. 0)). l = 3"
proof (induction c)
  case 0
  then show ?case by simp
next
  case (Suc c)
  have "randint 3 6 (\<lambda>_. 0) = (3, \<lambda>_. 0)" by (simp add: randint_def draw_def)
  then show ?case using Suc.IH by (simp add: pick_constant_tape)
qed

lemma drawn_lengths_six_first: "6 \<in> set (drawn_lengths n (Suc c) (\<lambda>_. 3))"
proof -
  have "randint 3 6 (\<lambda>_. 3) = (6, \<lambda>_. 3)" by (simp add: randint_def draw_def)
  then show ?thesis by simp
qed

text \<open>
  Claim C10. A generated graph has no self-loop: whenever the generator returns a graph,
  every edge \<open>(u, v)\<close> of it, in the edge dictionary and in \<open>G.edges()\<close>, has
  \<open>u \<noteq> v\<close>, whatever the node count, the cycle count and the random source.
\<close>

theorem build_toy_brain_no_self_loops:
  assumes "build_toy_brain n_nodes n_cycles r = Inr G"
  shows "(\<forall>e \<in> set (keys (edges G)). fst e \<noteq> snd e) \<and> (\<forall>(u, v) \<in> set (edges_view G). u \<noteq> v)"
proof -
  have "loop_free G"
    using embed_cycles_cases [of n_nodes "nat n_cycles" "add_nodes_from DiGraph (range_py n_nodes)" r]
      assms loop_free_initial [of "range_py n_nodes"]
    by (auto simp: build_toy_brain_def)
  then have "\<forall>e \<in> set (edges_view G). fst e \<noteq> snd e"
    using edges_view_subset [of G] unfolding loop_free_def by blast
  with \<open>loop_free G\<close> show ?thesis unfolding loop_free_def by (simp add: case_prod_beta)
qed

theorem build_toy_brain_no_self_loops_witness:
  "build_toy_brain 3 1 (\<lambda>_. 0) =
     Inr \<lparr>nodes = [0, 1, 2], edges = [((0, 1), None), ((1, 2), None), ((2, 0), None)]\<rparr>
   \<and> \<not> (\<exists>e \<in> set (keys (edges \<lparr>nodes = [0, 1, 2 :: int],
                 edges = [((0, 1), None), ((1, 2), None), ((2, 0), None)]\<rparr>)). fst e = snd e)"
  using build_toy_brain_no_self_loops [OF build_three] build_three by blast

text \<open>
  Claim C7, as stated, fails: with 3 nodes and one cycle to embed, a random source whose
  first draw gives the cycle length 4 makes the sampler raise \<open>ValueError\<close>.
\<close>

theorem build_toy_brain_three_nodes_counterexample:
  "build_toy_brain 3 1 (\<lambda>_. 1) = Inl ValueError"
  by (simp add: build_toy_brain_def randint_def draw_def sample_def)

text \<open>
  Claim C7, amended. The generator checks nothing itself and its only failure is the
  sampler's \<open>ValueError\<close>. Each pass draws a cycle length from 3 to 6; generation
  returns a graph exactly when every drawn length is at most the node count, and fails
  with \<open>ValueError\<close> exactly when a drawn length exceeds it. So it succeeds for every node
  count of at least 6 and whenever no cycle is requested, and fails for every node count
  below 3 with a positive cycle count; for the node counts between, both happen: it
  succeeds from 3 nodes on when the tape draws length 3 in every pass, and fails below 6
  nodes when the first pass draws length 6. The loops are bounded, so the function is
  total.
\<close>

theorem build_toy_brain_failure_modes:
  "(\<forall>l \<in> set (drawn_lengths n_nodes (nat n_cycles) r). 3 \<le> l \<and> l \<le> 6)
   \<and> ((\<exists>G. build_toy_brain n_nodes n_cycles r = Inr G) \<longleftrightarrow>
        (\<forall>l \<in> set (drawn_lengths n_nodes (nat n_cycles) r). l \<le> n_nodes))
   \<and> (build_toy_brain n_nodes n_cycles r = Inl ValueError \<longleftrightarrow>
        (\<exists>l \<in> set (drawn_lengths n_nodes (nat n_cycles) r). n_nodes < l))
   \<and> (\<forall>e. build_toy_brain n_nodes n_cycles r = Inl e \<longrightarrow> e = ValueError)
   \<and> (6 \<le> n_nodes \<or> n_cycles \<le> 0 \<longrightarrow> (\<exists>G. build_toy_brain n_nodes n_cycles r = Inr G))
   \<and> (n_nodes < 3 \<and> 0 < n_cycles \<longrightarrow> build_toy_brain n_nodes n_cycles r = Inl ValueError)
   \<and> (3 \<le> n_nodes \<longrightarrow> (\<exists>G. build_toy_brain n_nodes n_cycles (\<lambda>_. 0) = Inr G))
   \<and> (n_nodes < 6 \<and> 0 < n_cycles \<longrightarrow>
        build_toy_brain n_nodes n_cycles (\<lambda>_. 3) = Inl ValueError)"
proof -
  let ?G0 = "add_nodes_from DiGraph (range_py n_nodes)"
  let ?ls = "drawn_lengths n_nodes (nat n_cycles) r"
  have rng: "\<forall>l \<in> set ?ls. 3 \<le> l \<and> l \<le> 6" by (rule drawn_lengths_range)
  have fits: "\<exists>G. build_toy_brain n_nodes n_cycles r = Inr G" if "\<forall>l \<in> set ?ls. l \<le> n_nodes"
    unfolding build_toy_brain_def using that by (rule embed_cycles_fits)
  have refused: "build_toy_brain n_nodes n_cycles r = Inl ValueError"
    if "\<exists>l \<in> set ?ls. n_nodes < l"
    unfolding build_toy_brain_def using that by (rule embed_cycles_refused)
  have split: "(\<forall>l \<in> set ?ls. l \<le> n_nodes) \<or> (\<exists>l \<in> set ?ls. n_nodes < l)"
    by (meson not_le)
  have ok_iff: "(\<exists>G. build_toy_brain n_nodes n_cycles r = Inr G) \<longleftrightarrow>
      (\<forall>l \<in> set ?ls. l \<le> n_nodes)"
    using fits refused split by (metis Inl_Inr_False)
  have err_iff: "build_toy_brain n_nodes n_cycles r = Inl ValueError \<longleftrightarrow>
      (\<exists>l \<in> set ?ls. n_nodes < l)"
    using fits refused split by (metis Inl_Inr_False)
  have only: "\<forall>e. build_toy_brain n_nodes n_cycles r = Inl e \<longrightarrow> e = ValueError"
    using fits refused split by (metis Inl_Inr_False sum.inject(1))
  have large: "\<exists>G. build_toy_brain n_nodes n_cycles r = Inr G" if "6 \<le> n_nodes \<or> n_cycles \<le> 0"
  proof -
    have "\<forall>l \<in> set ?ls. l \<le> n_nodes"
    proof (cases "n_cycles \<le> 0")
      case True
      then show ?thesis by simp
    next
      case False
      then have "6 \<le> n_nodes" using that by simp
      then show ?thesis using rng by fastforce
    qed
    then show ?thesis by (rule fits)
  qed
  have small: "build_toy_brain n_nodes n_cycles r = Inl ValueError"
    if h: "n_nodes < 3 \<and> 0 < n_cycles"
  proof -
    have "nat n_cycles \<noteq> 0" using h by simp
    then obtain c where c: "nat n_cycles = Suc c" by (cases "nat n_cycles") simp_all
    have "n_nodes < 3" using h by simp
    then show ?thesis unfolding build_toy_brain_def c by (rule embed_cycles_small)
  qed
  have zero: "\<exists>G. build_toy_brain n_nodes n_cycles (\<lambda>_. 0) = Inr G" if "3 \<le> n_nodes"
  proof -
    have "\<forall>l \<in> set (drawn_lengths n_nodes (nat n_cycles) (\<lambda>_. 0)). l \<le> n_nodes"
      using drawn_lengths_zero_tape [of n_nodes "nat n_cycles"] that by fastforce
    then show ?thesis unfolding build_toy_brain_def by (rule embed_cycles_fits)
  qed
  have six: "build_toy_brain n_nodes n_cycles (\<lambda>_. 3) = Inl ValueError"
    if h: "n_nodes < 6 \<and> 0 < n_cycles"
  proof -
    have "nat n_cycles \<noteq> 0" using h by simp
    then obtain c where c: "nat n_cycles = Suc c" by (cases "nat n_cycles") simp_all
    have "\<exists>l \<in> set (drawn_lengths n_nodes (Suc c) (\<lambda>_. 3)). n_nodes < l"
      using drawn_lengths_six_first [of n_nodes c] h by blast
    then show ?thesis unfolding build_toy_brain_def c by (rule embed_cycles_refused)
  qed
  show ?thesis using rng ok_iff err_iff only large small zero six by blast
qed

lemma drawn_lengths_four: "drawn_lengths 3 (nat 1) (\<lambda>_. 1) = [4]"
  by (simp add: randint_def draw_def)

lemma drawn_lengths_three: "drawn_lengths 4 (nat 1) (\<lambda>_. 0) = [3]"
  by (simp add: randint_def draw_def)

theorem build_toy_brain_failure_modes_witness:
  "drawn_lengths 3 (nat 1) (\<lambda>_. 1) = [4] \<and> build_toy_brain 3 1 (\<lambda>_. 1) = Inl ValueError
   \<and> drawn_lengths 4 (nat 1) (\<lambda>_. 0) = [3] \<and> (\<exists>G. build_toy_brain 4 1 (\<lambda>_. 0) = Inr G)
   \<and> (\<exists>G. build_toy_brain 6 2 (\<lambda>i. i + 1) = Inr G)
   \<and> build_toy_brain 2 1 (\<lambda>_. 0) = Inl ValueError
   \<and> build_toy_brain 5 1 (\<lambda>_. 3) = Inl ValueError"
proof -
  have a: "\<exists>l \<in> set (drawn_lengths 3 (nat 1) (\<lambda>_. 1)). 3 < l"
    unfolding drawn_lengths_four by simp
  have b: "\<forall>l \<in> set (drawn_lengths 4 (nat 1) (\<lambda>_. 0)). l \<le> 4"
    unfolding drawn_lengths_three by simp
  from build_toy_brain_failure_modes [of 3 1 "\<lambda>_. 1"] a
  have 1: "build_toy_brain 3 1 (\<lambda>_. 1) = Inl ValueError" by blast
  from build_toy_brain_failure_modes [of 4 1 "\<lambda>_. 0"] b
  have 2: "\<exists>G. build_toy_brain 4 1 (\<lambda>_. 0) = Inr G" by blast
  from build_toy_brain_failure_modes [of 6 2 "\<lambda>i. i + 1"]
  have 3: "\<exists>G. build_toy_brain 6 2 (\<lambda>i. i + 1) = Inr G" by simp
  from build_toy_brain_failure_modes [of 2 1 "\<lambda>_. 0"]
  have 4: "build_toy_brain 2 1 (\<lambda>_. 0) = Inl ValueError" by simp
  from build_toy_brain_failure_modes [of 5 1 "\<lambda>_. 3"]
  have 5: "build_toy_brain 5 1 (\<lambda>_. 3) = Inl ValueError" by simp
  show ?thesis using drawn_lengths_four drawn_lengths_three 1 2 3 4 5 by blast
qed

section \<open>The graph collapser\<close>

lemma getitem_missing: "k \<notin> set (keys d) \<Longrightarrow> getitem d k = Inl KeyError"
proof -
  assume "k \<notin> set (keys d)"
  then have "map_of d k = None" by (simp add: keys_def map_of_eq_None_iff)
  then show ?thesis by (simp add: getitem_def)
qed

lemma weighted_lookup:
  "weighted H \<Longrightarrow> has_edge H a b \<Longrightarrow> \<exists>w. map_of (edges H) (a, b) = Some (Some w)"
proof -
  assume w: "weighted H" and h: "has_edge H a b"
  then obtain x where x: "map_of (edges H) (a, b) = Some x" by (auto simp: has_edge_def)
  then have "((a, b), x) \<in> set (edges H)" by (rule map_of_SomeD)
  with w have "x \<noteq> None" by (auto simp: weighted_def)
  with x show ?thesis by auto
qed

lemma increment_weight_bump:
  "weighted H \<Longrightarrow> has_edge H a b \<Longrightarrow> increment_weight H a b = Inr (bump H a b)"
  using weighted_lookup [of H a b]
  by (auto simp: increment_weight_def bump_def weight_of_def)

lemma map_of_edges_bump:
  "map_of (edges (bump H a b)) = (map_of (edges H))((a, b) \<mapsto> Some (weight_of H (a, b) + 1))"
  by (auto simp: bump_def add_edge_def Let_def update_conv' add_node_def has_edge_def weight_of_def)

lemma set_update_subset: "set (AList.update k v al) \<subseteq> insert (k, v) (set al)"
  by (induction al) auto

lemma weighted_bump: "weighted H \<Longrightarrow> weighted (bump H a b)"
proof -
  assume w: "weighted H"
  have "set (edges (bump H a b)) \<subseteq>
      insert ((a, b), Some (if has_edge H a b then weight_of H (a, b) + 1 else 1)) (set (edges H))"
    using set_update_subset [of "(a, b)" _ "edges H"]
    by (auto simp: bump_def add_edge_def Let_def add_node_def)
  with w show ?thesis unfolding weighted_def by (auto split: if_splits)
qed

lemma nodes_bump:
  "a \<in> set (nodes H) \<Longrightarrow> b \<in> set (nodes H) \<Longrightarrow> nodes (bump H a b) = nodes H"
  by (simp add: bump_def add_edge_def Let_def add_node_def)

lemma wf_dict_edges_bump: "wf_dict (edges H) \<Longrightarrow> wf_dict (edges (bump H a b))"
  by (simp add: bump_def add_edge_def Let_def add_node_def wf_dict_def keys_def distinct_update)

lemma keys_edges_bump: "set (keys (edges (bump H a b))) = insert (a, b) (set (keys (edges H)))"
  by (auto simp: bump_def add_edge_def Let_def add_node_def keys_def dom_update)

lemma sum_update:
  "(\<Sum>e\<leftarrow>AList.update k (Some (x::int)) al. case snd e of Some w \<Rightarrow> w | None \<Rightarrow> 0)
     = (\<Sum>e\<leftarrow>al. case snd e of Some w \<Rightarrow> w | None \<Rightarrow> 0)
       - (case map_of al k of Some (Some w) \<Rightarrow> w | _ \<Rightarrow> 0) + x"
  by (induction al) (auto split: option.splits)

lemma total_weight_bump: "total_weight (bump H a b) = total_weight H + 1"
proof (cases "has_edge H a b")
  case True
  then show ?thesis by (simp add: bump_def total_weight_def sum_update weight_of_def)
next
  case False
  then have "map_of (edges H) (a, b) = None" by (simp add: has_edge_def)
  with False show ?thesis
    by (simp add: bump_def total_weight_def sum_update add_edge_def Let_def add_node_def)
qed

lemma collapse_edges_fold:
  assumes "weighted H" and "\<forall>e \<in> set es. fst e \<in> set (keys clustering) \<and> snd e \<in> set (keys clustering)"
  shows "collapse_edges clustering es H = Inr (fold (collapse_step clustering) es H)"
  using assms
proof (induction es arbitrary: H)
  case Nil
  then show ?case by simp
next
  case (Cons e es)
  obtain u v where e: "e = (u, v)" by (cases e)
  obtain a where a: "map_of clustering u = Some a" "getitem clustering u = Inr a"
    using Cons.prems(2) getitem_key [of u clustering] by (auto simp: e)
  obtain b where b: "map_of clustering v = Some b" "getitem clustering v = Inr b"
    using Cons.prems(2) getitem_key [of v clustering] by (auto simp: e)
  have w: "weighted (collapse_step clustering e H)"
    using Cons.prems(1) by (simp add: collapse_step_def e a b weighted_bump)
  have "collapse_edges clustering (e # es) H
      = collapse_edges clustering es (collapse_step clustering e H)"
  proof (cases "a = b")
    case True
    then show ?thesis by (simp add: e a b collapse_step_def)
  next
    case False
    show ?thesis
    proof (cases "has_edge H a b")
      case True
      with False show ?thesis
        using increment_weight_bump [OF Cons.prems(1) True]
        by (simp add: e a b collapse_step_def)
    next
      case nh: False
      with False show ?thesis by (simp add: e a b collapse_step_def bump_def)
    qed
  qed
  also have "\<dots> = Inr (fold (collapse_step clustering) es (collapse_step clustering e H))"
    using w Cons.prems(2) by (intro Cons.IH) simp_all
  finally show ?case by simp
qed

lemma collapse_edges_missing:
  assumes "weighted H" and "\<exists>e \<in> set es. fst e \<notin> set (keys clustering) \<or> snd e \<notin> set (keys clustering)"
  shows "collapse_edges clustering es H = Inl KeyError"
  using assms
proof (induction es arbitrary: H)
  case Nil
  then show ?case by simp
next
  case (Cons e es)
  obtain u v where e: "e = (u, v)" by (cases e)
  show ?case
  proof (cases "u \<in> set (keys clustering) \<and> v \<in> set (keys clustering)")
    case False
    show ?thesis
    proof (cases "u \<in> set (keys clustering)")
      case u: True
      then obtain a where "getitem clustering u = Inr a"
        using getitem_key [of u clustering] by auto
      moreover have "getitem clustering v = Inl KeyError"
        using False u by (intro getitem_missing) simp
      ultimately show ?thesis by (simp add: e)
    next
      case u: False
      then have "getitem clustering u = Inl KeyError" by (rule getitem_missing)
      then show ?thesis by (simp add: e)
    qed
  next
    case True
    then obtain a b where ab: "getitem clustering u = Inr a" "getitem clustering v = Inr b"
      using getitem_key [of u clustering] getitem_key [of v clustering] by auto
    from True Cons.prems(2) have rest:
      "\<exists>e \<in> set es. fst e \<notin> set (keys clustering) \<or> snd e \<notin> set (keys clustering)"
      by (auto simp: e)
    have 1: "collapse_edges clustering es H' = Inl KeyError" if "weighted H'" for H'
      using that rest by (rule Cons.IH)
    show ?thesis
    proof (cases "a \<noteq> b \<and> has_edge H a b")
      case True
      then show ?thesis
        using increment_weight_bump [OF Cons.prems(1), of a b] 1 [OF weighted_bump [OF Cons.prems(1), of a b]]
        by (simp add: e ab)
    next
      case False
      then show ?thesis
        using 1 [OF Cons.prems(1)] 1 [OF weighted_bump [OF Cons.prems(1), of a b]]
        by (auto simp: e ab bump_def)
    qed
  qed
qed

lemma weight_of_bump:
  "weight_of (bump H a b) k = (if k = (a, b) then weight_of H k + 1 else weight_of H k)"
  by (simp add: weight_of_def map_of_edges_bump)

lemma map_of_edges_fold:
  "map_of (edges (fold (collapse_step clustering) es H)) k =
     (if crossings clustering k es = 0 then map_of (edges H) k
      else Some (Some (weight_of H k + int (crossings clustering k es))))"
proof (induction es arbitrary: H)
  case Nil
  then show ?case by (simp add: crossings_def)
next
  case (Cons e es)
  let ?H1 = "collapse_step clustering e H"
  let ?hit = "map_of clustering (fst e) = Some (fst k) \<and>
              map_of clustering (snd e) = Some (snd k) \<and> fst k \<noteq> snd k"
  have c: "crossings clustering k (e # es) = (if ?hit then Suc (crossings clustering k es) else crossings clustering k es)"
    by (simp add: crossings_def)
  have m: "map_of (edges ?H1) k = (if ?hit then Some (Some (weight_of H k + 1)) else map_of (edges H) k)"
    by (cases k) (auto simp: collapse_step_def map_of_edges_bump split: option.splits)
  have w: "weight_of ?H1 k = (if ?hit then weight_of H k + 1 else weight_of H k)"
    by (cases k) (auto simp: collapse_step_def weight_of_bump split: option.splits)
  show ?case using Cons.IH [of ?H1] by (simp add: c m w)
qed

lemma total_weight_fold:
  "total_weight (fold (collapse_step clustering) es H) =
     total_weight H
     + int (length (filter (\<lambda>e. \<exists>a b. map_of clustering (fst e) = Some a \<and>
                                      map_of clustering (snd e) = Some b \<and> a \<noteq> b) es))"
proof (induction es arbitrary: H)
  case Nil
  then show ?case by simp
next
  case (Cons e es)
  have "total_weight (collapse_step clustering e H) =
     total_weight H + (if \<exists>a b. map_of clustering (fst e) = Some a \<and>
                                map_of clustering (snd e) = Some b \<and> a \<noteq> b then 1 else 0)"
    by (auto simp: collapse_step_def total_weight_bump split: option.splits)
  then show ?case using Cons.IH [of "collapse_step clustering e H"] by simp
qed

lemma nodes_fold:
  "snd ` set clustering \<subseteq> set (nodes H) \<Longrightarrow>
   nodes (fold (collapse_step clustering) es H) = nodes H"
proof (induction es arbitrary: H)
  case Nil
  then show ?case by simp
next
  case (Cons e es)
  have "nodes (collapse_step clustering e H) = nodes H"
  proof (cases "map_of clustering (fst e)")
    case None
    then show ?thesis by (simp add: collapse_step_def)
  next
    case a: (Some a)
    show ?thesis
    proof (cases "map_of clustering (snd e)")
      case None
      then show ?thesis by (simp add: collapse_step_def a)
    next
      case b: (Some b)
      have "(fst e, a) \<in> set clustering" "(snd e, b) \<in> set clustering"
        using a b by (auto dest: map_of_SomeD)
      then have "a \<in> set (nodes H)" "b \<in> set (nodes H)"
        using Cons.prems by force+
      then show ?thesis by (simp add: collapse_step_def a b nodes_bump)
    qed
  qed
  then show ?case using Cons by simp
qed

lemma wf_dict_edges_fold:
  "wf_dict (edges H) \<Longrightarrow> wf_dict (edges (fold (collapse_step clustering) es H))"
proof (induction es arbitrary: H)
  case Nil
  then show ?case by simp
next
  case (Cons e es)
  have "wf_dict (edges (collapse_step clustering e H))"
    using Cons.prems by (auto simp: collapse_step_def wf_dict_edges_bump split: option.splits)
  then show ?case using Cons.IH by simp
qed

lemma add_nodes_from_props:
  "edges (add_nodes_from G ns) = edges G \<and>
   set (nodes (add_nodes_from G ns)) = set (nodes G) \<union> set ns \<and>
   (distinct (nodes G) \<longrightarrow> distinct (nodes (add_nodes_from G ns)))"
  unfolding add_nodes_from_def
proof (induction ns arbitrary: G)
  case Nil
  then show ?case by simp
next
  case (Cons n ns)
  have "edges (add_node G n) = edges G" "set (nodes (add_node G n)) = insert n (set (nodes G))"
    "distinct (nodes G) \<longrightarrow> distinct (nodes (add_node G n))"
    by (auto simp: add_node_def)
  with Cons.IH [of "add_node G n"] show ?case by auto
qed

lemma successors_iff: "v \<in> set (successors G u) \<longleftrightarrow> (u, v) \<in> set (keys (edges G))"
  by (force simp: successors_def)

lemma distinct_successors: "wf_dict (edges G) \<Longrightarrow> distinct (successors G u)"
  by (auto simp: wf_dict_def successors_def distinct_map inj_on_def)

lemma set_edges_view:
  "set (edges_view G) = {e \<in> set (keys (edges G)). fst e \<in> set (nodes G)}"
  by (auto simp: edges_view_def successors_iff)

lemma distinct_out_edges:
  assumes "distinct ns" and "\<And>u. distinct (f u)"
  shows "distinct (concat (map (\<lambda>u. map (Pair u) (f u)) ns))"
  using assms(1)
proof (induction ns)
  case Nil
  then show ?case by simp
next
  case (Cons n ns)
  have "distinct (map (Pair n) (f n))" using assms(2) by (simp add: distinct_map inj_on_def)
  moreover have "set (map (Pair n) (f n)) \<inter> set (concat (map (\<lambda>u. map (Pair u) (f u)) ns)) = {}"
    using Cons.prems by auto
  ultimately show ?case using Cons by simp
qed

lemma edges_view_wf:
  assumes "wf_digraph G"
  shows "distinct (edges_view G)" and "set (edges_view G) = set (keys (edges G))"
proof -
  show "distinct (edges_view G)"
    unfolding edges_view_def using assms
    by (intro distinct_out_edges) (simp_all add: wf_digraph_def distinct_successors)
  show "set (edges_view G) = set (keys (edges G))"
    using assms by (auto simp: set_edges_view wf_digraph_def)
qed

lemma weighted_initial: "weighted (add_nodes_from DiGraph ns)"
  using add_nodes_from_props [of DiGraph ns] by (simp add: weighted_def DiGraph_def)

lemma collapse_graph_total:
  assumes "\<forall>e \<in> set (edges_view G). fst e \<in> set (keys clustering) \<and> snd e \<in> set (keys clustering)"
  shows "collapse_graph hash_rank G clustering =
    Inr (fold (collapse_step clustering) (edges_view G)
          (add_nodes_from DiGraph (sort_key hash_rank (remdups (map snd clustering)))))"
  unfolding collapse_graph_def Let_def
  using weighted_initial assms by (rule collapse_edges_fold)

lemma edges_view_triangle: "edges_view triangle = [(0, 1), (1, 2), (2, 0)]"
  by (simp add: edges_view_def successors_def keys_def triangle_def)


text \<open>
  Claim C3. For a graph and a clustering that covers its nodes, the collapser returns,
  whatever the iteration order of the set of cluster identifiers, a graph whose node set
  is the set of values of the clustering; the collapsed edge \<open>(a, b)\<close> exists exactly when \<open>a \<noteq> b\<close> and some edge of the source maps to it, and
  its weight is the number of source edges that map to it, so each such edge counts 1;
  no collapsed edge is a self-loop; and the weights sum to the number of source edges
  whose endpoints lie in different clusters.
\<close>

theorem collapse_graph_weights:
  assumes "wf_digraph G" and "wf_dict clustering" and "set (nodes G) \<subseteq> set (keys clustering)"
  shows "\<exists>H. collapse_graph hash_rank G clustering = Inr H \<and> wf_digraph H
      \<and> set (nodes H) = ran (map_of clustering)
      \<and> (\<forall>a b. map_of (edges H) (a, b) =
            (let c = card {e \<in> set (keys (edges G)).
                          map_of clustering (fst e) = Some a \<and> map_of clustering (snd e) = Some b}
             in if a \<noteq> b \<and> 0 < c then Some (Some (int c)) else None))
      \<and> (\<forall>e \<in> set (keys (edges H)). fst e \<noteq> snd e)
      \<and> total_weight H =
          int (card {e \<in> set (keys (edges G)).
                      map_of clustering (fst e) \<noteq> map_of clustering (snd e)})"
proof -
  let ?Init = "add_nodes_from DiGraph (sort_key hash_rank (remdups (map snd clustering)))"
  let ?H = "fold (collapse_step clustering) (edges_view G) ?Init"
  have ev: "distinct (edges_view G)" "set (edges_view G) = set (keys (edges G))"
    using edges_view_wf [OF assms(1)] by simp_all
  have cov: "\<forall>e \<in> set (edges_view G). fst e \<in> set (keys clustering) \<and> snd e \<in> set (keys clustering)"
    using assms(1,3) ev(2) by (auto simp: wf_digraph_def)
  have run: "collapse_graph hash_rank G clustering = Inr ?H" using cov by (rule collapse_graph_total)
  have h0: "edges ?Init = []" "set (nodes ?Init) = snd ` set clustering" "distinct (nodes ?Init)"
    using add_nodes_from_props [of DiGraph "sort_key hash_rank (remdups (map snd clustering))"]
    by (simp_all add: DiGraph_def)
  have nodes: "nodes ?H = nodes ?Init" using h0(2) by (intro nodes_fold) simp
  have ran: "ran (map_of clustering) = snd ` set clustering"
    using assms(2) by (simp add: wf_dict_def keys_def ran_distinct)
  have cnt: "crossings clustering (a, b) (edges_view G) =
      (if a \<noteq> b then card {e \<in> set (keys (edges G)).
         map_of clustering (fst e) = Some a \<and> map_of clustering (snd e) = Some b} else 0)" for a b
  proof (cases "a = b")
    case True
    then show ?thesis by (simp add: crossings_def)
  next
    case False
    have "{e \<in> set (keys (edges G)).
           map_of clustering (fst e) = Some a \<and> map_of clustering (snd e) = Some b}
        = {e. map_of clustering (fst e) = Some a \<and> map_of clustering (snd e) = Some b}
          \<inter> set (edges_view G)"
      using ev(2) by auto
    then show ?thesis using False distinct_length_filter [OF ev(1)]
      by (simp add: crossings_def)
  qed
  have w0: "weight_of ?Init k = 0" for k by (simp add: weight_of_def h0(1))
  have edge: "map_of (edges ?H) (a, b) =
      (let c = card {e \<in> set (keys (edges G)).
                    map_of clustering (fst e) = Some a \<and> map_of clustering (snd e) = Some b}
       in if a \<noteq> b \<and> 0 < c then Some (Some (int c)) else None)" for a b
    by (simp add: map_of_edges_fold cnt w0 h0(1) Let_def)
  have wfe: "wf_dict (edges ?H)"
    by (intro wf_dict_edges_fold) (simp add: h0(1) wf_dict_def keys_def)
  have inkeys: "fst k \<noteq> snd k \<and> fst k \<in> set (nodes ?H) \<and> snd k \<in> set (nodes ?H)"
    if k: "k \<in> set (keys (edges ?H))" for k
  proof -
    obtain a b where ab: "k = (a, b)" by (cases k)
    have "map_of (edges ?H) (a, b) \<noteq> None"
      using k ab by (simp add: keys_def map_of_eq_None_iff)
    then have ne: "a \<noteq> b" and pos: "0 < card {e \<in> set (keys (edges G)).
         map_of clustering (fst e) = Some a \<and> map_of clustering (snd e) = Some b}"
      unfolding edge Let_def by (auto split: if_splits)
    from pos obtain e where "map_of clustering (fst e) = Some a" "map_of clustering (snd e) = Some b"
      by (metis (mono_tags, lifting) card.empty empty_Collect_eq less_numeral_extra(3))
    then have "(fst e, a) \<in> set clustering" "(snd e, b) \<in> set clustering"
      by (auto dest: map_of_SomeD)
    then have "a \<in> snd ` set clustering" "b \<in> snd ` set clustering" by force+
    then show ?thesis using ne by (simp add: ab nodes h0(2))
  qed
  have wf: "wf_digraph ?H"
    unfolding wf_digraph_def using wfe inkeys h0(3) by (simp add: nodes)
  have cross: "(\<exists>a b. map_of clustering (fst e) = Some a \<and> map_of clustering (snd e) = Some b \<and> a \<noteq> b)
      \<longleftrightarrow> map_of clustering (fst e) \<noteq> map_of clustering (snd e)"
    if mem: "e \<in> set (edges_view G)" for e
  proof -
    obtain a b where "map_of clustering (fst e) = Some a" "map_of clustering (snd e) = Some b"
      using cov mem getitem_key [of "fst e" clustering] getitem_key [of "snd e" clustering]
      by blast
    then show ?thesis by simp
  qed
  have "total_weight ?H =
      int (length (filter (\<lambda>e. map_of clustering (fst e) \<noteq> map_of clustering (snd e)) (edges_view G)))"
  proof -
    have "filter (\<lambda>e. \<exists>a b. map_of clustering (fst e) = Some a \<and>
              map_of clustering (snd e) = Some b \<and> a \<noteq> b) (edges_view G)
        = filter (\<lambda>e. map_of clustering (fst e) \<noteq> map_of clustering (snd e)) (edges_view G)"
      using cross by (intro filter_cong) simp_all
    moreover have "total_weight ?Init = 0" by (simp add: total_weight_def h0(1))
    ultimately show ?thesis by (simp only: total_weight_fold)
  qed
  also have "\<dots> = int (card {e \<in> set (keys (edges G)).
                      map_of clustering (fst e) \<noteq> map_of clustering (snd e)})"
  proof -
    have "{e \<in> set (keys (edges G)). map_of clustering (fst e) \<noteq> map_of clustering (snd e)}
        = {e. map_of clustering (fst e) \<noteq> map_of clustering (snd e)} \<inter> set (edges_view G)"
      using ev(2) by auto
    then show ?thesis using distinct_length_filter [OF ev(1)] by simp
  qed
  finally have tw: "total_weight ?H = int (card {e \<in> set (keys (edges G)).
                      map_of clustering (fst e) \<noteq> map_of clustering (snd e)})" .
  have "set (nodes ?H) = ran (map_of clustering)" by (simp add: nodes h0(2) ran)
  moreover have "\<forall>e \<in> set (keys (edges ?H)). fst e \<noteq> snd e" using inkeys by blast
  ultimately show ?thesis using run wf edge tw by blast
qed

theorem collapse_graph_weights_witness:
  "wf_digraph triangle \<and> wf_dict [(0::nat, ''A''), (1, ''A''), (2, ''B'')] \<and>
   set (nodes triangle) \<subseteq> set (keys [(0::nat, ''A''), (1, ''A''), (2, ''B'')]) \<and>
   (\<exists>H. collapse_graph (\<lambda>_. 0) triangle [(0, ''A''), (1, ''A''), (2, ''B'')] = Inr H \<and>
        set (nodes H) = ran (map_of [(0::nat, ''A''), (1, ''A''), (2, ''B'')]) \<and>
        total_weight H =
          int (card {e \<in> set (keys (edges triangle)).
                 map_of [(0::nat, ''A''), (1, ''A''), (2, ''B'')] (fst e)
                   \<noteq> map_of [(0::nat, ''A''), (1, ''A''), (2, ''B'')] (snd e)}))"
proof -
  let ?C = "[(0::nat, ''A''), (1, ''A''), (2, ''B'')]"
  have h1: "wf_digraph triangle" by (rule wf_triangle)
  have h2: "wf_dict ?C" by (simp add: wf_dict_def keys_def)
  have h3: "set (nodes triangle) \<subseteq> set (keys ?C)" by (simp add: keys_def triangle_def)
  from collapse_graph_weights [OF h1 h2 h3, of "\<lambda>_. 0"] h1 h2 h3 show ?thesis by blast
qed

text \<open>
  Claim C9, as stated, fails: a clustering that leaves an isolated node uncovered is
  accepted; the collapser looks up only the endpoints of edges.
\<close>

theorem collapse_graph_uncovered_node_counterexample:
  "\<not> set (nodes lone_node) \<subseteq> set (keys ([] :: (nat, nat) dict)) \<and>
   collapse_graph (\<lambda>_. 0) lone_node ([] :: (nat, nat) dict) = Inr \<lparr>nodes = [], edges = []\<rparr>"
  by (simp add: collapse_graph_def edges_view_def successors_def keys_def lone_node_def
      add_nodes_from_def DiGraph_def)

text \<open>
  Claim C9, amended. The collapser fails exactly when some edge of the graph has an
  endpoint missing from the clustering, and then with the \<open>KeyError\<close> of the dictionary
  subscript, its only failure; it succeeds for every clustering that covers the nodes
  of the graph.
\<close>

theorem collapse_graph_key_error:
  "(collapse_graph hash_rank G clustering = Inl KeyError \<longleftrightarrow>
      (\<exists>e \<in> set (edges_view G). fst e \<notin> set (keys clustering) \<or> snd e \<notin> set (keys clustering)))
   \<and> (\<forall>err. collapse_graph hash_rank G clustering = Inl err \<longrightarrow> err = KeyError)
   \<and> (wf_digraph G \<and> set (nodes G) \<subseteq> set (keys clustering) \<longrightarrow>
        (\<exists>H. collapse_graph hash_rank G clustering = Inr H))"
proof -
  let ?miss = "\<exists>e \<in> set (edges_view G). fst e \<notin> set (keys clustering) \<or> snd e \<notin> set (keys clustering)"
  have bad: "collapse_graph hash_rank G clustering = Inl KeyError" if ?miss
    unfolding collapse_graph_def Let_def using weighted_initial that by (rule collapse_edges_missing)
  have good: "\<exists>H. collapse_graph hash_rank G clustering = Inr H" if "\<not> ?miss"
    using collapse_graph_total [of G clustering hash_rank] that by blast
  have tot: "\<not> ?miss" if "wf_digraph G \<and> set (nodes G) \<subseteq> set (keys clustering)"
    using that edges_view_wf(2) [of G] by (auto simp: wf_digraph_def)
  show ?thesis using bad good tot by (cases ?miss) auto
qed

theorem collapse_graph_key_error_witness:
  "(\<exists>e \<in> set (edges_view triangle).
      fst e \<notin> set (keys [(0::nat, 7::nat), (1, 7)]) \<or> snd e \<notin> set (keys [(0::nat, 7::nat), (1, 7)]))
   \<and> collapse_graph (\<lambda>_. 0) triangle [(0::nat, 7::nat), (1, 7)] = Inl KeyError
   \<and> wf_digraph triangle \<and> set (nodes triangle) \<subseteq> set (keys [(0::nat, 7::nat), (1, 7), (2, 8)])
   \<and> (\<exists>H. collapse_graph (\<lambda>_. 0) triangle [(0::nat, 7::nat), (1, 7), (2, 8)] = Inr H)"
proof -
  have m: "\<exists>e \<in> set (edges_view triangle).
      fst e \<notin> set (keys [(0::nat, 7::nat), (1, 7)]) \<or> snd e \<notin> set (keys [(0::nat, 7::nat), (1, 7)])"
    by (simp add: edges_view_triangle keys_def)
  have h1: "wf_digraph triangle" by (rule wf_triangle)
  have h3: "set (nodes triangle) \<subseteq> set (keys [(0::nat, 7::nat), (1, 7), (2, 8)])"
    by (simp add: keys_def triangle_def)
  from collapse_graph_key_error [of "\<lambda>_. 0" triangle "[(0::nat, 7::nat), (1, 7)]"] m
  have "collapse_graph (\<lambda>_. 0) triangle [(0::nat, 7::nat), (1, 7)] = Inl KeyError" by blast
  moreover from collapse_graph_key_error [of "\<lambda>_. 0" triangle "[(0::nat, 7::nat), (1, 7), (2, 8)]"] h1 h3
  have "\<exists>H. collapse_graph (\<lambda>_. 0) triangle [(0::nat, 7::nat), (1, 7), (2, 8)] = Inr H" by blast
  ultimately show ?thesis using m h1 h3 by blast
qed

section \<open>The cycle enumerator\<close>

lemma successors_edge: "v \<in> set (successors G u) \<Longrightarrow> (u, v) \<in> set (keys (edges G))"
  by (force simp: successors_def)

lemma is_walk_snoc:
  "is_walk G p \<Longrightarrow> p \<noteq> [] \<Longrightarrow> (last p, x) \<in> set (keys (edges G)) \<Longrightarrow> is_walk G (p @ [x])"
  by (simp add: is_walk_def successively_append_iff)

lemma visit_successor_inv:
  assumes "good_frame G n (current, path)" and "neighbor \<in> set (successors G current)"
    and "\<forall>f \<in> set st. good_frame G n f" and "\<forall>c \<in> set cy. good_cycle G ml c"
    and "visit_successor n ml path neighbor (st, cy) = (st', cy')"
  shows "(\<forall>f \<in> set st'. good_frame G n f) \<and> (\<forall>c \<in> set cy'. good_cycle G ml c)"
proof -
  have p: "path \<noteq> []" "hd path = n" "last path = current" "distinct path" "is_walk G path"
    using assms(1) by (simp_all add: good_frame_def)
  have e: "(last path, neighbor) \<in> set (keys (edges G))"
    using assms(2) p(3) by (simp add: successors_edge)
  have w: "is_walk G (path @ [neighbor])" using p(5) p(1) e by (rule is_walk_snoc)
  have push: "good_frame G n (neighbor, path @ [neighbor])" if "neighbor \<notin> set path"
    using that p w by (simp add: good_frame_def)
  have emit: "good_cycle G ml (path @ [n])"
    if "neighbor = n" and "1 < length path" and "int (length path) \<le> ml"
    using that p w by (simp add: good_cycle_def)
  show ?thesis
    using assms(3,4,5) push emit by (auto split: if_splits)
qed

lemma fold_visit_inv:
  assumes "good_frame G n (current, path)" and "set ss \<subseteq> set (successors G current)"
    and "\<forall>f \<in> set st. good_frame G n f" and "\<forall>c \<in> set cy. good_cycle G ml c"
    and "fold (visit_successor n ml path) ss (st, cy) = (st', cy')"
  shows "(\<forall>f \<in> set st'. good_frame G n f) \<and> (\<forall>c \<in> set cy'. good_cycle G ml c)"
  using assms(2-5)
proof (induction ss arbitrary: st cy)
  case Nil
  then show ?case by simp
next
  case (Cons s ss)
  obtain st1 cy1 where v: "visit_successor n ml path s (st, cy) = (st1, cy1)"
    by (cases "visit_successor n ml path s (st, cy)")
  have s: "s \<in> set (successors G current)" using Cons.prems(1) by simp
  have i: "(\<forall>f \<in> set st1. good_frame G n f) \<and> (\<forall>c \<in> set cy1. good_cycle G ml c)"
    using assms(1) s Cons.prems(2,3) v by (rule visit_successor_inv)
  have f: "fold (visit_successor n ml path) ss (st1, cy1) = (st', cy')"
    using Cons.prems(4) by (simp only: fold_simps o_apply v)
  show ?case using Cons.IH [of st1 cy1] Cons.prems(1) i f by simp
qed

lemma dfs_while_inv:
  "\<forall>f \<in> set st. good_frame G n f \<Longrightarrow> \<forall>c \<in> set cy. good_cycle G ml c \<Longrightarrow>
   \<forall>c \<in> set (dfs_while G n ml st cy). good_cycle G ml c"
proof (induction G n ml st cy rule: dfs_while.induct)
  case (1 G n ml cy)
  then show ?case by simp
next
  case (2 G n ml current path st cy)
  obtain st' cy' where f:
    "fold (visit_successor n ml path) (successors G current) (st, cy) = (st', cy')"
    by (cases "fold (visit_successor n ml path) (successors G current) (st, cy)")
  have g: "good_frame G n (current, path)" and r: "\<forall>f \<in> set st. good_frame G n f"
    using "2.prems"(1) by simp_all
  have "(\<forall>f \<in> set st'. good_frame G n f) \<and> (\<forall>c \<in> set cy'. good_cycle G ml c)"
    using g _ r "2.prems"(2) f by (rule fold_visit_inv) simp
  then have "\<forall>c \<in> set (dfs_while G n ml st' cy'). good_cycle G ml c"
    using "2.IH" [OF f [symmetric]] by blast
  then show ?case by (simp add: f)
qed

lemma find_all_cycles_inv:
  "\<forall>c \<in> set cy. good_cycle G ml c \<Longrightarrow>
   \<forall>c \<in> set (fold (\<lambda>n cycles. dfs_while G n ml [(n, [n])] cycles) ns cy). good_cycle G ml c"
proof (induction ns arbitrary: cy)
  case Nil
  then show ?case by simp
next
  case (Cons n ns)
  have "\<forall>f \<in> set [(n, [n])]. good_frame G n f" by (simp add: good_frame_def is_walk_def)
  then have "\<forall>c \<in> set (dfs_while G n ml [(n, [n])] cy). good_cycle G ml c"
    using Cons.prems by (rule dfs_while_inv)
  then show ?case
    using Cons.IH [of "dfs_while G n ml [(n, [n])] cy"] by (simp del: dfs_while.simps)
qed


lemma find_all_cycles_triangle:
  "find_all_cycles triangle 3 = [[0, 1, 2, 0], [1, 2, 0, 1], [2, 0, 1, 2]]"
  by (simp add: find_all_cycles_def triangle_def successors_def keys_def)

text \<open>
  Claim C2. Every cycle the enumerator returns is a closed walk of the graph: it is not
  empty, its first and last node are equal, its nodes without the last are pairwise
  distinct, consecutive nodes are joined by edges, and its number of edges, the length
  minus one, lies between 2 and \<open>max_length\<close>.
\<close>

theorem find_all_cycles_sound:
  assumes "c \<in> set (find_all_cycles G max_length)"
  shows "c \<noteq> [] \<and> hd c = last c \<and> distinct (butlast c)
       \<and> successively (\<lambda>u v. (u, v) \<in> set (keys (edges G))) c
       \<and> 2 \<le> length c - 1 \<and> int (length c - 1) \<le> max_length"
proof -
  have "\<forall>c \<in> set (find_all_cycles G max_length). good_cycle G max_length c"
    unfolding find_all_cycles_def by (rule find_all_cycles_inv) simp
  then show ?thesis using assms by (simp add: good_cycle_def is_walk_def)
qed

theorem find_all_cycles_sound_witness:
  "[0, 1, 2, 0] \<in> set (find_all_cycles triangle 3) \<and>
   hd [0::nat, 1, 2, 0] = last [0::nat, 1, 2, 0] \<and> distinct (butlast [0::nat, 1, 2, 0]) \<and>
   2 \<le> length [0::nat, 1, 2, 0] - 1 \<and> int (length [0::nat, 1, 2, 0] - 1) \<le> 3"
proof -
  have h: "[0, 1, 2, 0] \<in> set (find_all_cycles triangle 3)"
    by (simp add: find_all_cycles_triangle)
  from find_all_cycles_sound [OF h] h show ?thesis by blast
qed

section \<open>The motif enumerator\<close>

lemma keys_update: "set (keys (AList.update k v al)) = insert k (set (keys al))"
  by (auto simp: keys_def dom_update)

lemma extend_path_short:
  assumes "\<forall>m \<in> set (keys mc). length m \<le> 3" and "extend_path path nbr (q, mc) = (q', mc')"
  shows "\<forall>m \<in> set (keys mc'). length m \<le> 3"
  using assms by (auto simp: Let_def keys_update split: if_splits)

lemma fold_extend_short:
  assumes "\<forall>m \<in> set (keys mc). length m \<le> 3"
  shows "\<forall>m \<in> set (keys (snd (fold (extend_path path) ss (q, mc)))). length m \<le> 3"
  using assms
proof (induction ss arbitrary: q mc)
  case Nil
  then show ?case by simp
next
  case (Cons s ss)
  obtain q1 mc1 where e: "extend_path path s (q, mc) = (q1, mc1)"
    by (cases "extend_path path s (q, mc)")
  have "\<forall>m \<in> set (keys mc1). length m \<le> 3" using Cons.prems e by (rule extend_path_short)
  then have "\<forall>m \<in> set (keys (snd (fold (extend_path path) ss (q1, mc1)))). length m \<le> 3"
    by (rule Cons.IH)
  then show ?case by (simp only: fold_simps o_apply e)
qed

lemma motif_while_short:
  "\<forall>m \<in> set (keys mc). length m \<le> 3 \<Longrightarrow>
   \<forall>m \<in> set (keys (motif_while G q mc)). length m \<le> 3"
proof (induction G q mc rule: motif_while.induct)
  case (1 G mc)
  then show ?case by simp
next
  case (2 G cur path q mc)
  show ?case
  proof (cases "length path > 3")
    case True
    then show ?thesis using 2 by simp
  next
    case False
    obtain q' mc' where f: "fold (extend_path path) (successors G cur) (q, mc) = (q', mc')"
      by (cases "fold (extend_path path) (successors G cur) (q, mc)")
    have "\<forall>m \<in> set (keys mc'). length m \<le> 3"
      using fold_extend_short [OF "2.prems", of path "successors G cur" q] by (simp add: f)
    then have "\<forall>m \<in> set (keys (motif_while G q' mc')). length m \<le> 3"
      using "2.IH"(2) [OF False f [symmetric]] by blast
    then show ?thesis using False by (simp add: f)
  qed
qed

lemma pcn_analysis_motif_length:
  "\<forall>m \<in> set (keys (pcn_analysis G)). length m \<le> 3"
proof -
  have step: "\<forall>m \<in> set (keys mc). length m \<le> 3 \<Longrightarrow>
    \<forall>m \<in> set (keys (fold (\<lambda>node mc. motif_while G [(node, [node])] mc) ns mc)). length m \<le> 3"
    for ns and mc :: "('a list, int) dict"
  proof (induction ns arbitrary: mc)
    case Nil
    then show ?case by simp
  next
    case (Cons n ns)
    have "\<forall>m \<in> set (keys (motif_while G [(n, [n])] mc)). length m \<le> 3"
      using Cons.prems by (rule motif_while_short)
    then show ?case
      using Cons.IH [of "motif_while G [(n, [n])] mc"] by (simp del: motif_while.simps)
  qed
  have base: "\<forall>m \<in> set (keys ([] :: ('a list, int) dict)). length m \<le> 3"
    by (simp add: keys_def)
  show ?thesis unfolding pcn_analysis_def using base by (rule step)
qed

text \<open>
  Claim C4 does not hold of the code. On the path \<open>0 \<rightarrow> 1 \<rightarrow> 2 \<rightarrow> 3\<close> the node
  sequence \<open>[0, 1, 2, 3]\<close> is a walk of 3 edges, and the enumerator's table has no entry
  for it: the test \<open>len(new_path) <= 3\<close> counts nodes, so only walks of 1 and 2 edges
  are recorded (\<open>pcn_analysis_motif_length\<close> above bounds every recorded sequence by 3
  nodes, on every graph).
\<close>

theorem pcn_analysis_misses_three_edge_walk:
  "successively (\<lambda>u v. (u, v) \<in> set (keys (edges chain))) [0, 1, 2, 3]
   \<and> pcn_analysis chain = [([0, 1], 1), ([0, 1, 2], 1), ([1, 2], 1), ([1, 2, 3], 1), ([2, 3], 1)]
   \<and> map_of (pcn_analysis chain) [0, 1, 2, 3] = None"
proof -
  have w: "successively (\<lambda>u v. (u, v) \<in> set (keys (edges chain))) [0, 1, 2, 3]"
    by (simp add: chain_def keys_def)
  have p: "pcn_analysis chain = [([0, 1], 1), ([0, 1, 2], 1), ([1, 2], 1), ([1, 2, 3], 1), ([2, 3], 1)]"
    by (simp add: pcn_analysis_def chain_def successors_def keys_def Let_def)
  show ?thesis using w by (simp add: p)
qed


end
